theory Spec2Isabelle
  imports Complex_Main "HOL-Library.Multiset"
begin

section \<open>The genetic-optimisation engine of God.hpp\<close>

text \<open>
  A shallow embedding of \<^verbatim>\<open>God.hpp\<close>: the comparators and termination policies of
  class \<^verbatim>\<open>God\<close>, the worker \<^verbatim>\<open>Process\<close> and the generational loop
  \<^verbatim>\<open>God::simulate\<close>.

  Conventions.
  \<^item> A C++ \<^verbatim>\<open>double\<close> is an exact \<open>real\<close>: rounding is not modelled. A division whose
    divisor is zero is the one place where the IEEE result (an infinity or a NaN) is kept
    apart from the reals, see \<open>fdiv\<close>.
  \<^item> An \<^verbatim>\<open>unsigned int\<close> is a \<open>nat\<close>; where the source can exceed 32 bits the
    reduction modulo \<open>2 ^ 32\<close> is written out.
  \<^item> An \<^verbatim>\<open>Algo*\<close> is an address; the live \<^verbatim>\<open>Algo\<close> objects are a partial map from
    addresses to their contents. Address \<open>0\<close> is the null pointer.
  \<^item> Undefined behaviour of the C++ (a read through a dangling pointer, a second
    \<^verbatim>\<open>delete\<close>, an index out of range, a modulo by zero) is a value of type \<open>fault\<close>.
\<close>

subsection \<open>Data\<close>

text \<open>\<^verbatim>\<open>Processor::Score\<close>, as God.hpp uses it: the fields \<^verbatim>\<open>success\<close> and \<^verbatim>\<open>score\<close>.\<close>

record Score =
  success :: bool
  score :: real

type_synonym ptr = nat

text \<open>\<^verbatim>\<open>struct AlgoScore { Algo* algo; Processor::Score score; }\<close>. The second field is
  named \<open>ascore\<close> here, \<open>score\<close> being the field of \<open>Score\<close>.\<close>

record AlgoScore =
  algo :: ptr
  ascore :: Score

datatype fault =
    DivByZero          \<comment> \<open>integer division or modulo by zero\<close>
  | OutOfRange         \<comment> \<open>index past the end of a vector\<close>
  | BadPointer         \<comment> \<open>call through a pointer to no live object\<close>
  | BadDelete          \<comment> \<open>delete of a pointer to no live object\<close>
  | PopEmpty           \<comment> \<open>Pop on a structure that holds nothing\<close>
  | DerefEnd           \<comment> \<open>dereference of the end iterator\<close>

subsection \<open>Comparators and termination policies\<close>

text \<open>\<^verbatim>\<open>God::greedyComplete::operator()\<close>: the loop over the successors, returning at
  the first success.\<close>

fun greedyComplete :: "AlgoScore list \<Rightarrow> nat \<Rightarrow> bool" where
  "greedyComplete [] stepNum = False"
| "greedyComplete (as # successors) stepNum =
     (if success (ascore as) then True else greedyComplete successors stepNum)"

definition patientComplete :: "AlgoScore list \<Rightarrow> nat \<Rightarrow> bool" where
  "patientComplete successors stepNum = False"

definition algoScoreSort :: "AlgoScore \<Rightarrow> AlgoScore \<Rightarrow> bool" where
  "algoScoreSort lhs rhs =
     (let l = ascore lhs; r = ascore rhs
      in if success l = success r then score l < score r else success r)"

definition minScoreHeap :: "AlgoScore \<Rightarrow> AlgoScore \<Rightarrow> int" where
  "minScoreHeap lhs rhs =
     (let l = ascore lhs; r = ascore rhs
      in if \<not> success l \<and> success r then 1
         else if success l \<and> \<not> success r then - 1
         else if score l < score r then - 1
         else if score l > score r then 1
         else 0)"

definition maxScoreHeap :: "AlgoScore \<Rightarrow> AlgoScore \<Rightarrow> int" where
  "maxScoreHeap lhs rhs =
     (let l = ascore lhs; r = ascore rhs
      in if \<not> success l \<and> success r then 1
         else if success l \<and> \<not> success r then - 1
         else if score l < score r then 1
         else if score l > score r then - 1
         else 0)"

text \<open>\<^verbatim>\<open>std::max_element(first, last, comp)\<close> of the C++ standard library: the first
  element is the candidate, and a later element replaces the candidate when
  \<^verbatim>\<open>comp(candidate, element)\<close> holds. On an empty range it returns \<^verbatim>\<open>last\<close>, which
  \<^verbatim>\<open>simulate\<close> dereferences.\<close>

fun max_element_from :: "('a \<Rightarrow> 'a \<Rightarrow> bool) \<Rightarrow> 'a \<Rightarrow> 'a list \<Rightarrow> 'a" where
  "max_element_from lt largest [] = largest"
| "max_element_from lt largest (x # xs) =
     max_element_from lt (if lt largest x then x else largest) xs"

definition max_element :: "('a \<Rightarrow> 'a \<Rightarrow> bool) \<Rightarrow> 'a list \<Rightarrow> fault + 'a" where
  "max_element lt xs =
     (case xs of [] \<Rightarrow> Inl DerefEnd | x # rest \<Rightarrow> Inr (max_element_from lt x rest))"

subsection \<open>Configuration\<close>

text \<open>The constructor arguments of \<^verbatim>\<open>God\<close> that are numbers. The processor, the seeds and
  the template arguments of \<^verbatim>\<open>simulate\<close> are parameters of the functions below.\<close>

record God =
  m_populationSize :: nat
  m_successorSize :: nat
  m_minThreadWorkloadSize :: nat
  m_maxNumThreads :: nat
  m_numCycles :: nat

text \<open>Lines 225 to 229 of \<^verbatim>\<open>simulate\<close>: the number of worker threads.\<close>

definition numThreads :: "God \<Rightarrow> fault + nat" where
  "numThreads g =
     (if m_minThreadWorkloadSize g = 0 then Inl DivByZero
      else let n = m_populationSize g div m_minThreadWorkloadSize g
           in Inr (if n > m_maxNumThreads g then m_maxNumThreads g else n))"

subsection \<open>Online statistics\<close>

text \<open>The three shared accumulators \<^verbatim>\<open>popM\<close>, \<^verbatim>\<open>popBar\<close> and \<^verbatim>\<open>popN\<close> of a generation, and
  likewise the three locals \<^verbatim>\<open>xM\<close>, \<^verbatim>\<open>xBar\<close> and \<^verbatim>\<open>xN\<close> of a worker.\<close>

record stats =
  M :: real
  Bar :: real
  N :: nat

text \<open>Lines 75 to 77 of \<^verbatim>\<open>Process\<close>: the update of \<^verbatim>\<open>xBar\<close> and \<^verbatim>\<open>xM\<close> with the score \<open>x\<close>
  of the \<open>k\<close>-th individual of the slice, \<open>k = i - start + 1\<close>.\<close>

definition welford_step :: "nat \<Rightarrow> real \<Rightarrow> real \<times> real \<Rightarrow> real \<times> real" where
  "welford_step k x acc =
     (case acc of (xM, xBar) \<Rightarrow>
        let delta = x - xBar;
            xBar' = xBar + delta / real k
        in (xM + delta * (x - xBar'), xBar'))"

text \<open>The statistics part of the loop of lines 68 to 78 on its own: the scores of a slice,
  in slice order, starting with \<open>k = 1\<close> from \<^verbatim>\<open>xM = 0.0, xBar = 0.0\<close>; \<^verbatim>\<open>xN\<close> is the length
  of the slice.\<close>

fun welford_from :: "nat \<Rightarrow> real list \<Rightarrow> real \<times> real \<Rightarrow> real \<times> real" where
  "welford_from k [] acc = acc"
| "welford_from k (x # xs) acc = welford_from (Suc k) xs (welford_step k x acc)"

definition local_stats :: "real list \<Rightarrow> stats" where
  "local_stats xs =
     (case welford_from 1 xs (0, 0) of (xM, xBar) \<Rightarrow> \<lparr>M = xM, Bar = xBar, N = length xs\<rparr>)"

text \<open>A division of two \<^verbatim>\<open>double\<close>s. With a divisor of zero the C++ yields an infinity
  or a NaN, which is no real: \<open>None\<close>.\<close>

definition fdiv :: "real \<Rightarrow> real \<Rightarrow> real option" where
  "fdiv a b = (if b = 0 then None else Some (a / b))"

text \<open>Lines 81 to 98 of \<^verbatim>\<open>Process\<close>: the worker's statistics \<open>x\<close> go into the shared ones.
  The sum \<^verbatim>\<open>xN + popN_\<close> is a sum of two \<^verbatim>\<open>unsigned int\<close>, so it is taken modulo \<open>2 ^ 32\<close>
  before it becomes the \<^verbatim>\<open>double n\<close>. When that sum wraps to \<open>0\<close> lines 93 and 94 divide
  by zero: \<^verbatim>\<open>popM\<close> and \<^verbatim>\<open>popBar\<close> then hold an infinity or a NaN, and line 97 stores
  \<open>0\<close> in \<^verbatim>\<open>popN\<close>. That state of the three shared variables is \<open>None\<close>; the next worker
  finds \<^verbatim>\<open>*popN == 0\<close> and overwrites all three (lines 81 to 86).\<close>

definition merge_stats :: "stats option \<Rightarrow> stats \<Rightarrow> stats option" where
  "merge_stats pop x =
     (case pop of
        None \<Rightarrow> Some \<lparr>M = M x, Bar = Bar x, N = N x\<rparr>
      | Some p \<Rightarrow>
          if N p = 0 then Some \<lparr>M = M x, Bar = Bar x, N = N x\<rparr>
          else let delta = Bar x - Bar p;
                   n = real ((N x + N p) mod 2 ^ 32)
               in case fdiv (real (N x) * Bar x + real (N p) * Bar p) n of
                    None \<Rightarrow> None
                  | Some bar \<Rightarrow>
                      (case fdiv (delta * delta * real (N x) * real (N p)) n of
                         None \<Rightarrow> None
                       | Some q \<Rightarrow>
                           Some \<lparr>M = M x + M p + q, Bar = bar, N = (N x + N p) mod 2 ^ 32\<rparr>))"

text \<open>Lines 241 and 242 of \<^verbatim>\<open>simulate\<close>: the shared statistics at the start of a
  generation.\<close>

definition stats0 :: stats where
  "stats0 = \<lparr>M = 0, Bar = 0, N = 0\<rparr>"




subsection \<open>The bounded selection structure\<close>

text \<open>
  Modelled from the spec: \<^verbatim>\<open>Heap.hpp\<close> (the class \<^verbatim>\<open>Heap<T, H>\<close> with \<^verbatim>\<open>Insert\<close>, \<^verbatim>\<open>Pop\<close>
  and \<^verbatim>\<open>Flush\<close>) is not among the sources. The spec (section 4.3) describes a
  fixed-capacity structure under a three-way ordering policy: \<^verbatim>\<open>Insert\<close> adds while below
  capacity and otherwise replaces the worst retained element when the new one is better;
  \<^verbatim>\<open>Pop\<close> removes and returns the best retained element; \<^verbatim>\<open>Flush\<close> empties. Here the
  retained elements are kept best first, a result \<open>< 0\<close> of the policy meaning that its
  left operand is the better one (as both policies of \<^verbatim>\<open>God\<close> have it), and an element
  goes behind the retained ones it does not beat. What \<^verbatim>\<open>Pop\<close> does on an empty structure
  the spec does not say: it is the fault \<open>PopEmpty\<close>. Both constructor arguments are
  \<^verbatim>\<open>successorSize\<close> wherever \<^verbatim>\<open>God.hpp\<close> builds a \<^verbatim>\<open>Heap\<close>; that number is the capacity.
\<close>

record 'a Heap =
  capacity :: nat
  items :: "'a list"

definition Heap_new :: "nat \<Rightarrow> 'a Heap" where
  "Heap_new k = \<lparr>capacity = k, items = []\<rparr>"

fun place :: "('a \<Rightarrow> 'a \<Rightarrow> int) \<Rightarrow> 'a \<Rightarrow> 'a list \<Rightarrow> 'a list" where
  "place h x [] = [x]"
| "place h x (y # ys) = (if h x y < 0 then x # y # ys else y # place h x ys)"

definition Insert :: "('a \<Rightarrow> 'a \<Rightarrow> int) \<Rightarrow> 'a \<Rightarrow> 'a Heap \<Rightarrow> 'a Heap" where
  "Insert h x hp =
     (if length (items hp) < capacity hp then hp\<lparr>items := place h x (items hp)\<rparr>
      else if items hp = [] then hp
      else if h x (last (items hp)) < 0 then hp\<lparr>items := place h x (butlast (items hp))\<rparr>
      else hp)"

definition Pop :: "'a Heap \<Rightarrow> fault + 'a \<times> 'a Heap" where
  "Pop hp = (case items hp of [] \<Rightarrow> Inl PopEmpty | x # xs \<Rightarrow> Inr (x, hp\<lparr>items := xs\<rparr>))"

definition Flush :: "'a Heap \<Rightarrow> 'a Heap" where
  "Flush hp = hp\<lparr>items := []\<rparr>"

subsection \<open>Objects and loops\<close>

text \<open>The live \<^verbatim>\<open>Algo\<close> objects and the next address \<^verbatim>\<open>new\<close> hands out. An address is
  handed out once: the comparisons of \<^verbatim>\<open>simulate\<close> are between pointers to live objects
  only, so the reuse of a freed address by the allocator is not modelled.\<close>

record 'g store =
  objs :: "ptr \<rightharpoonup> 'g"
  fresh :: ptr

text \<open>Modelled from the spec: \<^verbatim>\<open>Algo.hpp\<close> is not among the sources. By the spec (section
  6) the call \<^verbatim>\<open>p->gen()\<close> gives a new, independently owned individual derived from \<^verbatim>\<open>*p\<close>
  and leaves \<^verbatim>\<open>*p\<close> as it is. The derivation is the parameter \<open>gen\<close>; its first argument is
  the new address, standing for whatever randomness the derivation uses.\<close>

definition gen_call :: "(nat \<Rightarrow> 'g \<Rightarrow> 'g) \<Rightarrow> ptr \<Rightarrow> 'g store \<Rightarrow> fault + ptr \<times> 'g store" where
  "gen_call gen p s =
     (case objs s p of
        None \<Rightarrow> Inl BadPointer
      | Some a \<Rightarrow>
          let q = fresh s
          in Inr (q, s\<lparr>objs := (objs s)(q \<mapsto> gen q a), fresh := Suc q\<rparr>))"

text \<open>\<^verbatim>\<open>delete p\<close>: nothing for the null pointer, a fault for a pointer to no live object.\<close>

definition delete_obj :: "ptr \<Rightarrow> 'g store \<Rightarrow> fault + 'g store" where
  "delete_obj p s =
     (if p = 0 then Inr s
      else if objs s p = None then Inl BadDelete
      else Inr (s\<lparr>objs := (objs s)(p := None)\<rparr>))"

text \<open>A \<^verbatim>\<open>for\<close> loop over the indices \<open>js\<close> whose body may fault: the fault ends the
  loop.\<close>

fun for_each :: "nat list \<Rightarrow> (nat \<Rightarrow> 's \<Rightarrow> fault + 's) \<Rightarrow> 's \<Rightarrow> fault + 's" where
  "for_each [] body s = Inr s"
| "for_each (j # js) body s =
     (case body j s of Inl e \<Rightarrow> Inl e | Inr s' \<Rightarrow> for_each js body s')"

subsection \<open>The worker \<^verbatim>\<open>Process\<close>\<close>

text \<open>What a run of \<^verbatim>\<open>simulate\<close> is given besides the numbers: the template arguments
  \<^verbatim>\<open>H\<close> (heap ordering) and \<^verbatim>\<open>C\<close> (termination policy), the processor's \<^verbatim>\<open>process\<close> as a
  function of the individual's contents, the derivation behind \<^verbatim>\<open>gen()\<close>, and for every
  generation the order in which the workers of that generation take the mutex.\<close>

record 'g params =
  order_H :: "AlgoScore \<Rightarrow> AlgoScore \<Rightarrow> int"
  complete_C :: "AlgoScore list \<Rightarrow> nat \<Rightarrow> bool"
  process :: "'g \<Rightarrow> Score"
  gen :: "nat \<Rightarrow> 'g \<Rightarrow> 'g"
  sched :: "nat \<Rightarrow> nat list"
  god :: God

text \<open>\<^verbatim>\<open>threadData\<close> without its pointers: the population and the processor are arguments
  of \<open>Process\<close>, the engine's \<^verbatim>\<open>scores\<close> and the three statistics are the record
  \<open>shared\<close>, and the mutex is the order of the workers. The statistics are \<open>None\<close> while
  they hold the quotients of a division by zero, see \<open>merge_stats\<close>.\<close>

record threadData =
  start :: nat
  stop :: nat
  successorSize :: nat

record shared =
  scores :: "AlgoScore Heap"
  pop :: "stats option"

text \<open>The locals of \<^verbatim>\<open>Process\<close> that its first loop changes.\<close>

record worker =
  w_scores :: "AlgoScore Heap"
  xM :: real
  xBar :: real

text \<open>Lines 70 to 77: the body of the first loop, at index \<open>i\<close>. \<^verbatim>\<open>population->at(i)\<close>
  throws past the end; \<^verbatim>\<open>process\<close> reads the object.\<close>

definition Process_body ::
  "'g params \<Rightarrow> (ptr \<rightharpoonup> 'g) \<Rightarrow> ptr list \<Rightarrow> threadData \<Rightarrow> nat \<Rightarrow> worker \<Rightarrow> fault + worker" where
  "Process_body s ob population td i w =
     (if length population \<le> i then Inl OutOfRange
      else case ob (population ! i) of
        None \<Rightarrow> Inl BadPointer
      | Some a \<Rightarrow>
          let as = \<lparr>algo = population ! i, ascore = process s a\<rparr>
          in case welford_step (i - start td + 1) (score (ascore as)) (xM w, xBar w) of
               (m, bar) \<Rightarrow>
                 Inr \<lparr>w_scores = Insert (order_H s) as (w_scores w), xM = m, xBar = bar\<rparr>)"

text \<open>Line 101: one \<^verbatim>\<open>td->scores->Insert(scores.Pop())\<close>, on the worker's structure and
  the engine's.\<close>

definition drain_body ::
  "('a \<Rightarrow> 'a \<Rightarrow> int) \<Rightarrow> nat \<Rightarrow> 'a Heap \<times> 'a Heap \<Rightarrow> fault + 'a Heap \<times> 'a Heap" where
  "drain_body h i lg =
     (case lg of (l, g) \<Rightarrow>
        case Pop l of Inl e \<Rightarrow> Inl e | Inr (x, l') \<Rightarrow> Inr (l', Insert h x g))"

text \<open>\<^verbatim>\<open>Process\<close>: the first loop over the slice, then, under the mutex, the merge of the
  statistics and \<^verbatim>\<open>successorSize\<close> times line 101. \<^verbatim>\<open>xN = stop - start\<close> is unsigned.\<close>

definition Process ::
  "'g params \<Rightarrow> (ptr \<rightharpoonup> 'g) \<Rightarrow> ptr list \<Rightarrow> threadData \<Rightarrow> shared \<Rightarrow> fault + shared" where
  "Process s ob population td sh =
     (case for_each [start td..<stop td] (Process_body s ob population td)
             \<lparr>w_scores = Heap_new (successorSize td), xM = 0, xBar = 0\<rparr> of
        Inl e \<Rightarrow> Inl e
      | Inr w \<Rightarrow>
          let xN = (stop td + 2 ^ 32 - start td) mod 2 ^ 32;
              pop' = merge_stats (pop sh) \<lparr>M = xM w, Bar = xBar w, N = xN\<rparr>
          in case for_each [0..<successorSize td] (drain_body (order_H s))
                    (w_scores w, scores sh) of
               Inl e \<Rightarrow> Inl e
             | Inr (l, g) \<Rightarrow> Inr \<lparr>scores = g, pop = pop'\<rparr>)"

subsection \<open>One generation\<close>

text \<open>One line of the progress output: the generation, mean and standard deviation, the
  best's success flag and score, and the four figures of lines 309 to 311. \<open>None\<close> is a
  figure that is, or is computed from, the quotient of a division by zero.\<close>

record report =
  r_generation :: nat
  r_mu :: "real option"
  r_sigma :: "real option"
  r_success :: bool
  r_score :: real
  r_above_avg :: "real option"
  r_std_above_avg :: "real option"
  r_change_avg :: "real option"
  r_change_best :: "real option"

text \<open>Division and subtraction on figures that may already be the quotient of a division
  by zero: the result of either is then one, too.\<close>

definition odiv :: "real option \<Rightarrow> real option \<Rightarrow> real option" where
  "odiv a b =
     (case a of None \<Rightarrow> None | Some x \<Rightarrow> (case b of None \<Rightarrow> None | Some y \<Rightarrow> fdiv x y))"

definition osub :: "real option \<Rightarrow> real option \<Rightarrow> real option" where
  "osub a b =
     (case a of None \<Rightarrow> None | Some x \<Rightarrow> (case b of None \<Rightarrow> None | Some y \<Rightarrow> Some (x - y)))"

text \<open>The variables of \<^verbatim>\<open>simulate\<close> that live across generations, the live objects and
  the output so far. \<^verbatim>\<open>best\<close> points into \<^verbatim>\<open>algoscores\<close>, which does not change between the
  assignment of \<^verbatim>\<open>best\<close> and its last use, so the element itself is kept; \<open>None\<close> is
  \<^verbatim>\<open>NULL\<close>. \<^verbatim>\<open>prevAvg\<close> is a copy of \<^verbatim>\<open>popBar\<close> (line 318) and \<open>None\<close> when that is.\<close>

record 'g sim =
  mem :: "'g store"
  m_seeds :: "ptr list"
  population :: "ptr list"
  sh :: shared
  algoscores :: "AlgoScore list"
  best :: "AlgoScore option"
  prevAvg :: "real option"
  prevBest :: real
  out :: "report list"

text \<open>Line 249, for slot \<open>j\<close>.\<close>

definition seed_body :: "'g params \<Rightarrow> nat \<Rightarrow> 'g sim \<Rightarrow> fault + 'g sim" where
  "seed_body s j t =
     (let numSeeds = length (m_seeds t)
      in if numSeeds = 0 then Inl DivByZero
         else case gen_call (gen s) (m_seeds t ! (j mod numSeeds)) (mem t) of
                Inl e \<Rightarrow> Inl e
              | Inr (q, m') \<Rightarrow> Inr (t\<lparr>population := (population t)[j := q], mem := m'\<rparr>))"

text \<open>Lines 253 and 254, for seed \<open>j\<close>.\<close>

definition free_seed_body :: "nat \<Rightarrow> 'g sim \<Rightarrow> fault + 'g sim" where
  "free_seed_body j t =
     (case delete_obj (m_seeds t ! j) (mem t) of
        Inl e \<Rightarrow> Inl e
      | Inr m' \<Rightarrow> Inr (t\<lparr>mem := m', m_seeds := (m_seeds t)[j := 0]\<rparr>))"

text \<open>Lines 246 to 255: generation 1.\<close>

definition init_population :: "'g params \<Rightarrow> 'g sim \<Rightarrow> fault + 'g sim" where
  "init_population s st =
     (case for_each [0..<m_populationSize (god s)] (seed_body s) st of
        Inl e \<Rightarrow> Inl e
      | Inr st1 \<Rightarrow> for_each [0..<length (m_seeds st1)] free_seed_body st1)"

text \<open>Lines 263 and 264, for slot \<open>j\<close> of \<^verbatim>\<open>newpop\<close>.\<close>

definition breed_body :: "'g params \<Rightarrow> nat \<Rightarrow> 'g sim \<times> ptr list \<Rightarrow> fault + 'g sim \<times> ptr list" where
  "breed_body s j tn =
     (case tn of (t, newpop) \<Rightarrow>
        if m_successorSize (god s) = 0 then Inl DivByZero
        else let as = algoscores t ! (j mod m_successorSize (god s))
             in case gen_call (gen s) (algo as) (mem t) of
                  Inl e \<Rightarrow> Inl e
                | Inr (q, m') \<Rightarrow> Inr (t\<lparr>mem := m'\<rparr>, newpop[j := q]))"

text \<open>Lines 268 to 272, for slot \<open>j\<close>.\<close>

definition commit_body :: "AlgoScore \<Rightarrow> ptr list \<Rightarrow> nat \<Rightarrow> 'g sim \<Rightarrow> fault + 'g sim" where
  "commit_body b newpop j t =
     (case (if population t ! j \<noteq> algo b then delete_obj (population t ! j) (mem t)
            else Inr (mem t)) of
        Inl e \<Rightarrow> Inl e
      | Inr m' \<Rightarrow> Inr (t\<lparr>mem := m', population := (population t)[j := newpop ! j]\<rparr>))"

text \<open>Lines 259 to 273: a generation after the first. \<^verbatim>\<open>newpop[0]\<close> is past the end of
  an empty vector.\<close>

definition breed :: "'g params \<Rightarrow> 'g sim \<Rightarrow> fault + 'g sim" where
  "breed s st =
     (case best st of
        None \<Rightarrow> Inl BadPointer
      | Some b \<Rightarrow>
          if m_populationSize (god s) = 0 then Inl OutOfRange
          else case for_each [1..<m_populationSize (god s)] (breed_body s)
                      (st, (replicate (m_populationSize (god s)) 0)[0 := algo b]) of
                 Inl e \<Rightarrow> Inl e
               | Inr (st1, newpop) \<Rightarrow>
                   for_each [0..<m_populationSize (god s)] (commit_body b newpop) st1)"

text \<open>Lines 280 to 285: the slice of worker \<open>j\<close> of \<open>n\<close>. The products are unsigned.\<close>

definition make_td :: "God \<Rightarrow> nat \<Rightarrow> nat \<Rightarrow> threadData" where
  "make_td g n j =
     \<lparr>start = (j * m_populationSize g) mod 2 ^ 32 div n,
      stop = (if j = n - 1 then m_populationSize g
              else ((j + 1) * m_populationSize g) mod 2 ^ 32 div n),
      successorSize = m_successorSize g\<rparr>"

text \<open>Lines 278 to 292: the \<open>n\<close> workers run and are joined. Before it takes the mutex a
  worker writes nothing that is shared, so the run is the workers one after the other in
  the order \<open>js\<close> in which they take the mutex.\<close>

definition run_threads :: "'g params \<Rightarrow> nat \<Rightarrow> nat list \<Rightarrow> 'g sim \<Rightarrow> fault + 'g sim" where
  "run_threads s n js st =
     for_each js
       (\<lambda>j t. case Process s (objs (mem t)) (population t) (make_td (god s) n j) (sh t) of
                 Inl e \<Rightarrow> Inl e
               | Inr sh' \<Rightarrow> Inr (t\<lparr>sh := sh'\<rparr>)) st"

text \<open>Line 296, for slot \<open>j\<close>.\<close>

definition select_body :: "nat \<Rightarrow> 'g sim \<Rightarrow> fault + 'g sim" where
  "select_body j t =
     (case Pop (scores (sh t)) of
        Inl e \<Rightarrow> Inl e
      | Inr (x, hp) \<Rightarrow> Inr (t\<lparr>algoscores := (algoscores t)[j := x], sh := (sh t)\<lparr>scores := hp\<rparr>\<rparr>))"

text \<open>Lines 300 to 318: the output of generation \<open>i\<close> and the two values kept for the
  next. \<^verbatim>\<open>getSummary\<close> and the processor's report read the best's object.\<close>

definition report_generation :: "'g params \<Rightarrow> nat \<Rightarrow> AlgoScore \<Rightarrow> 'g sim \<Rightarrow> fault + 'g sim" where
  "report_generation s i b t =
     (if objs (mem t) (algo b) = None then Inl BadPointer
      else
        let popM = map_option M (pop (sh t)); popBar = map_option Bar (pop (sh t));
            sigma = map_option sqrt (odiv popM (Some (real (m_populationSize (god s)))));
            above = map_option (\<lambda>pb. - (score (ascore b) - pb)) popBar;
            line = \<lparr>r_generation = i, r_mu = popBar, r_sigma = sigma,
                    r_success = success (ascore b), r_score = score (ascore b),
                    r_above_avg = map_option (\<lambda>q. q * 100) (odiv above popBar),
                    r_std_above_avg = odiv above sigma,
                    r_change_avg =
                      map_option (\<lambda>q. q * 100)
                        (odiv (map_option uminus (osub popBar (prevAvg t))) (prevAvg t)),
                    r_change_best =
                      map_option (\<lambda>q. q * 100)
                        (fdiv (- (score (ascore b) - prevBest t)) (prevBest t))\<rparr>
        in Inr (t\<lparr>out := out t @ [line], prevBest := score (ascore b), prevAvg := popBar\<rparr>))"

text \<open>Lines 276 to 297, with the statistics of lines 241 and 242: the engine's structure
  is flushed, the workers of generation \<open>i\<close> run, and \<^verbatim>\<open>m_successorSize\<close> elements are
  popped into \<^verbatim>\<open>algoscores\<close>.\<close>

definition evaluate :: "'g params \<Rightarrow> nat \<Rightarrow> nat \<Rightarrow> 'g sim \<Rightarrow> fault + 'g sim" where
  "evaluate s n i st =
     (case run_threads s n (sched s i)
             (st\<lparr>sh := \<lparr>scores = Flush (scores (sh st)), pop = Some stats0\<rparr>\<rparr>) of
        Inl e \<Rightarrow> Inl e
      | Inr st2 \<Rightarrow> for_each [0..<m_successorSize (god s)] select_body st2)"

text \<open>Lines 241 to 318: the body of the generational loop up to the test of the
  termination policy, for generation \<open>i\<close> with \<open>n\<close> workers.\<close>

definition generation :: "'g params \<Rightarrow> nat \<Rightarrow> nat \<Rightarrow> 'g sim \<Rightarrow> fault + 'g sim" where
  "generation s n i st =
     (case (if i = 1 then init_population s st else breed s st) of
        Inl e \<Rightarrow> Inl e
      | Inr st1 \<Rightarrow>
          case evaluate s n i st1 of
            Inl e \<Rightarrow> Inl e
          | Inr st3 \<Rightarrow>
              case max_element algoScoreSort (algoscores st3) of
                Inl e \<Rightarrow> Inl e
              | Inr b \<Rightarrow> report_generation s i b (st3\<lparr>best := Some b\<rparr>))"

subsection \<open>The loop and its two exits\<close>

text \<open>Lines 325 to 329 and 338 to 342, for slot \<open>j\<close>.\<close>

definition release_body :: "ptr \<Rightarrow> nat \<Rightarrow> 'g sim \<Rightarrow> fault + 'g sim" where
  "release_body keep j t =
     (if population t ! j \<noteq> keep then
        case delete_obj (population t ! j) (mem t) of
          Inl e \<Rightarrow> Inl e
        | Inr m' \<Rightarrow> Inr (t\<lparr>mem := m', population := (population t)[j := 0]\<rparr>)
      else Inr t)"

definition release :: "'g params \<Rightarrow> AlgoScore \<Rightarrow> 'g sim \<Rightarrow> fault + AlgoScore \<times> 'g sim" where
  "release s w st =
     (case for_each [0..<m_populationSize (god s)] (release_body (algo w)) st of
        Inl e \<Rightarrow> Inl e
      | Inr st' \<Rightarrow> Inr (w, st'))"

text \<open>Lines 323 to 331: the exit when the policy fires.\<close>

definition return_best :: "'g params \<Rightarrow> 'g sim \<Rightarrow> fault + AlgoScore \<times> 'g sim" where
  "return_best s st = (case best st of None \<Rightarrow> Inl BadPointer | Some b \<Rightarrow> release s b st)"

text \<open>Lines 335 to 344: the exit after the loop.\<close>

definition return_winner :: "'g params \<Rightarrow> 'g sim \<Rightarrow> fault + AlgoScore \<times> 'g sim" where
  "return_winner s st =
     (case max_element algoScoreSort (algoscores st) of
        Inl e \<Rightarrow> Inl e
      | Inr winner \<Rightarrow> release s winner st)"

text \<open>Lines 239 to 333: the loop from generation \<open>i\<close> on. The counter is unsigned: with
  \<^verbatim>\<open>m_numCycles\<close> at \<open>2 ^ 32 - 1\<close> the test \<^verbatim>\<open>i <= m_numCycles\<close> never fails. \<open>None\<close> is a
  run that does not return.\<close>

partial_function (option) generations ::
  "'g params \<Rightarrow> nat \<Rightarrow> nat \<Rightarrow> 'g sim \<Rightarrow> (fault + AlgoScore \<times> 'g sim) option" where
  "generations s n i st =
     (if i \<le> m_numCycles (god s) then
        (case generation s n i st of
           Inl e \<Rightarrow> Some (Inl e)
         | Inr st' \<Rightarrow>
             if complete_C s (algoscores st') i then Some (return_best s st')
             else generations s n ((i + 1) mod 2 ^ 32) st')
      else Some (return_winner s st))"

text \<open>Lines 222 to 238: the variables as \<^verbatim>\<open>simulate\<close> starts, given the seeds and the live
  objects. The vectors \<^verbatim>\<open>population\<close> and \<^verbatim>\<open>algoscores\<close> are value-initialised: null
  pointers, and scores of \<^verbatim>\<open>false\<close> and \<open>0\<close>.\<close>

definition sim0 :: "'g params \<Rightarrow> ptr list \<Rightarrow> 'g store \<Rightarrow> 'g sim" where
  "sim0 s seeds m =
     \<lparr>mem = m, m_seeds = seeds,
      population = replicate (m_populationSize (god s)) 0,
      sh = \<lparr>scores = Heap_new (m_successorSize (god s)), pop = Some stats0\<rparr>,
      algoscores = replicate (m_successorSize (god s))
                     \<lparr>algo = 0, ascore = \<lparr>success = False, score = 0\<rparr>\<rparr>,
      best = None, prevAvg = Some 0, prevBest = 0, out = []\<rparr>"

text \<open>\<^verbatim>\<open>God::simulate<H, C>()\<close>.\<close>

definition simulate ::
  "'g params \<Rightarrow> ptr list \<Rightarrow> 'g store \<Rightarrow> (fault + AlgoScore \<times> 'g sim) option" where
  "simulate s seeds m =
     (case numThreads (god s) of
        Inl e \<Rightarrow> Some (Inl e)
      | Inr n \<Rightarrow> generations s n 1 (sim0 s seeds m))"

subsection \<open>States between generations\<close>

text \<open>The state \<^verbatim>\<open>simulate\<close> starts from: seeds that are distinct live objects, live
  addresses that are non-null and below the next fresh one, and the two vectors at their
  sizes.\<close>

definition seeded :: "'g params \<Rightarrow> 'g sim \<Rightarrow> bool" where
  "seeded s st \<longleftrightarrow>
     m_seeds st \<noteq> [] \<and> distinct (m_seeds st) \<and>
     set (m_seeds st) \<subseteq> dom (objs (mem st)) \<and>
     dom (objs (mem st)) \<subseteq> {1..<fresh (mem st)} \<and>
     length (population st) = m_populationSize (god s) \<and>
     length (algoscores st) = m_successorSize (god s)"

text \<open>The state a generation leaves behind: a population of distinct live individuals,
  successors that are members of it, and \<^verbatim>\<open>best\<close> pointing at one of the successors.\<close>

definition bred :: "'g params \<Rightarrow> 'g sim \<Rightarrow> bool" where
  "bred s st \<longleftrightarrow>
     (case best st of None \<Rightarrow> False | Some b \<Rightarrow> b \<in> set (algoscores st)) \<and>
     length (population st) = m_populationSize (god s) \<and>
     length (algoscores st) = m_successorSize (god s) \<and>
     distinct (population st) \<and>
     set (population st) \<subseteq> dom (objs (mem st)) \<and>
     algo ` set (algoscores st) \<subseteq> set (population st) \<and>
     dom (objs (mem st)) \<subseteq> {1..<fresh (mem st)}"

subsection \<open>Example runs\<close>

text \<open>Individuals whose contents are a number: the score of an individual is that number,
  it is a success from 5 on, and a derived individual's number is its address.\<close>

definition ex_params ::
  "(AlgoScore \<Rightarrow> AlgoScore \<Rightarrow> int) \<Rightarrow> (AlgoScore list \<Rightarrow> nat \<Rightarrow> bool) \<Rightarrow> (nat \<Rightarrow> nat list) \<Rightarrow>
   God \<Rightarrow> nat params" where
  "ex_params h c sc g =
     \<lparr>order_H = h, complete_C = c,
      process = (\<lambda>a. \<lparr>success = (5 \<le> a), score = real a\<rparr>),
      gen = (\<lambda>q a. q), sched = sc, god = g\<rparr>"

definition ex_god :: "nat \<Rightarrow> nat \<Rightarrow> nat \<Rightarrow> nat \<Rightarrow> God" where
  "ex_god p k t c =
     \<lparr>m_populationSize = p, m_successorSize = k, m_minThreadWorkloadSize = 1,
      m_maxNumThreads = t, m_numCycles = c\<rparr>"

text \<open>One seed, at address 1.\<close>

definition ex_store :: "nat store" where
  "ex_store = \<lparr>objs = [1 \<mapsto> 0], fresh = 2\<rparr>"

text \<open>A state with the population of three that one seed gives.\<close>

definition ex_sim :: "nat sim" where
  "ex_sim =
     \<lparr>mem = \<lparr>objs = [2 \<mapsto> 2, 3 \<mapsto> 3, 4 \<mapsto> 4], fresh = 5\<rparr>, m_seeds = [0],
      population = [2, 3, 4],
      sh = \<lparr>scores = Heap_new 2, pop = Some stats0\<rparr>,
      algoscores = replicate 2 \<lparr>algo = 0, ascore = \<lparr>success = False, score = 0\<rparr>\<rparr>,
      best = None, prevAvg = Some 0, prevBest = 0, out = []\<rparr>"

text \<open>The same state after a generation that kept the individuals at 3 and 2, the one at
  3 being its best.\<close>

definition ex_bred :: "nat sim" where
  "ex_bred =
     ex_sim\<lparr>algoscores := [\<lparr>algo = 3, ascore = \<lparr>success = False, score = 3\<rparr>\<rparr>,
                            \<lparr>algo = 2, ascore = \<lparr>success = False, score = 2\<rparr>\<rparr>],
            best := Some \<lparr>algo = 3, ascore = \<lparr>success = False, score = 3\<rparr>\<rparr>\<rparr>"

section \<open>Properties\<close>

subsection \<open>Ordering policies\<close>

text \<open>
  Claim C7. Both heap-ordering policies put success first: a successful item compared with
  an unsuccessful one gives \<open>-1\<close>, and the other way round \<open>1\<close>, whatever the two numeric
  values. Between two items with the same success flag \<open>minScoreHeap\<close> gives \<open>-1\<close> to the
  lower value and \<open>maxScoreHeap\<close> gives \<open>-1\<close> to the higher value (and \<open>1\<close> to the mirrored
  pair); with the same flag and the same value both give \<open>0\<close>.
\<close>

theorem heap_orderings_contract:
  "(success (ascore a) \<and> \<not> success (ascore b) \<longrightarrow>
      minScoreHeap a b = - 1 \<and> minScoreHeap b a = 1 \<and>
      maxScoreHeap a b = - 1 \<and> maxScoreHeap b a = 1) \<and>
   (success (ascore a) = success (ascore b) \<and> score (ascore a) < score (ascore b) \<longrightarrow>
      minScoreHeap a b = - 1 \<and> minScoreHeap b a = 1 \<and>
      maxScoreHeap b a = - 1 \<and> maxScoreHeap a b = 1) \<and>
   (success (ascore a) = success (ascore b) \<and> score (ascore a) = score (ascore b) \<longrightarrow>
      minScoreHeap a b = 0 \<and> maxScoreHeap a b = 0)"
  by (auto simp: minScoreHeap_def maxScoreHeap_def Let_def)

theorem heap_orderings_contract_witness:
  "minScoreHeap \<lparr>algo = 1, ascore = \<lparr>success = True, score = 9\<rparr>\<rparr>
                \<lparr>algo = 2, ascore = \<lparr>success = False, score = 1\<rparr>\<rparr> = - 1 \<and>
   maxScoreHeap \<lparr>algo = 2, ascore = \<lparr>success = False, score = 1\<rparr>\<rparr>
                \<lparr>algo = 1, ascore = \<lparr>success = True, score = 9\<rparr>\<rparr> = 1 \<and>
   minScoreHeap \<lparr>algo = 1, ascore = \<lparr>success = True, score = 2\<rparr>\<rparr>
                \<lparr>algo = 2, ascore = \<lparr>success = True, score = 5\<rparr>\<rparr> = - 1 \<and>
   maxScoreHeap \<lparr>algo = 2, ascore = \<lparr>success = True, score = 5\<rparr>\<rparr>
                \<lparr>algo = 1, ascore = \<lparr>success = True, score = 2\<rparr>\<rparr> = - 1 \<and>
   maxScoreHeap \<lparr>algo = 1, ascore = \<lparr>success = False, score = 3\<rparr>\<rparr>
                \<lparr>algo = 2, ascore = \<lparr>success = False, score = 3\<rparr>\<rparr> = 0"
  using heap_orderings_contract
          [of "\<lparr>algo = 1, ascore = \<lparr>success = True, score = 9\<rparr>\<rparr>"
              "\<lparr>algo = 2, ascore = \<lparr>success = False, score = 1\<rparr>\<rparr>"]
        heap_orderings_contract
          [of "\<lparr>algo = 1, ascore = \<lparr>success = True, score = 2\<rparr>\<rparr>"
              "\<lparr>algo = 2, ascore = \<lparr>success = True, score = 5\<rparr>\<rparr>"]
        heap_orderings_contract
          [of "\<lparr>algo = 1, ascore = \<lparr>success = False, score = 3\<rparr>\<rparr>"
              "\<lparr>algo = 2, ascore = \<lparr>success = False, score = 3\<rparr>\<rparr>"]
  by simp


subsection \<open>The best of a generation\<close>

lemma algoScoreSort_irrefl: "\<not> algoScoreSort a a"
  by (simp add: algoScoreSort_def)

lemma algoScoreSort_trans:
  "algoScoreSort a b \<Longrightarrow> algoScoreSort b c \<Longrightarrow> algoScoreSort a c"
  by (auto simp: algoScoreSort_def Let_def split: if_splits)

lemma algoScoreSort_neg_trans:
  "\<not> algoScoreSort a b \<Longrightarrow> \<not> algoScoreSort b c \<Longrightarrow> \<not> algoScoreSort a c"
  by (auto simp: algoScoreSort_def Let_def split: if_splits)

lemma max_element_from_mem:
  "max_element_from lt largest xs \<in> set (largest # xs)"
  by (induction xs arbitrary: largest) auto

lemma max_element_from_algoScoreSort:
  "\<forall>y\<in>set seen. \<not> algoScoreSort largest y \<Longrightarrow>
   \<forall>y\<in>set (seen @ xs). \<not> algoScoreSort (max_element_from algoScoreSort largest xs) y"
proof (induction xs arbitrary: largest seen)
  case Nil
  then show ?case by simp
next
  case (Cons x xs)
  let ?l = "if algoScoreSort largest x then x else largest"
  have "\<forall>y\<in>set (seen @ [x]). \<not> algoScoreSort ?l y"
  proof (cases "algoScoreSort largest x")
    case True
    have "\<not> algoScoreSort x y" if "y \<in> set seen" for y
      using Cons.prems that True algoScoreSort_trans by blast
    with True show ?thesis by (auto simp: algoScoreSort_irrefl)
  next
    case False
    with Cons.prems show ?thesis by auto
  qed
  from Cons.IH [OF this] show ?case by simp
qed



lemma greedyComplete_iff:
  "greedyComplete successors stepNum \<longleftrightarrow> (\<exists>a\<in>set successors. success (ascore a))"
  by (induction successors) auto

lemma max_element_success:
  assumes "max_element algoScoreSort successors = Inr b"
  shows "success (ascore b) \<longleftrightarrow> (\<exists>a\<in>set successors. success (ascore a))"
proof -
  obtain x rest where xs: "successors = x # rest" and b: "b = max_element_from algoScoreSort x rest"
    using assms by (auto simp: max_element_def split: list.splits)
  have mem: "b \<in> set successors"
    using max_element_from_mem [of algoScoreSort x rest] xs b by simp
  have "\<forall>y\<in>set ([x] @ rest). \<not> algoScoreSort (max_element_from algoScoreSort x rest) y"
    by (rule max_element_from_algoScoreSort) (simp add: algoScoreSort_irrefl)
  then have top: "\<forall>y\<in>set successors. \<not> algoScoreSort b y" using xs b by simp
  show ?thesis
  proof
    assume "success (ascore b)"
    with mem show "\<exists>a\<in>set successors. success (ascore a)" by blast
  next
    assume "\<exists>a\<in>set successors. success (ascore a)"
    then obtain a where a: "a \<in> set successors" "success (ascore a)" by blast
    with top have "\<not> algoScoreSort b a" by blast
    with a(2) show "success (ascore b)" by (auto simp: algoScoreSort_def Let_def split: if_splits)
  qed
qed


subsection \<open>Statistics\<close>













text \<open>The sum of two counts can wrap to \<open>0\<close>: the merge then divides by zero, and the
  next worker starts the statistics afresh.\<close>

lemma merge_stats_wraps_to_zero:
  "merge_stats (Some \<lparr>M = 0, Bar = 1, N = 2 ^ 32 - 1\<rparr>) \<lparr>M = 0, Bar = 2, N = 1\<rparr> = None \<and>
   merge_stats None x = Some \<lparr>M = M x, Bar = Bar x, N = N x\<rparr>"
  by (simp add: merge_stats_def fdiv_def)






subsection \<open>Loops and evaluation\<close>

lemma for_each_append:
  "for_each (is @ js) body s =
     (case for_each is body s of Inl e \<Rightarrow> Inl e | Inr s' \<Rightarrow> for_each js body s')"
  by (induction "is" arbitrary: s) (auto split: sum.splits)

lemma for_each_preserves:
  assumes "\<And>j t t'. body j t = Inr t' \<Longrightarrow> f t' = f t"
    and "for_each js body st = Inr st'"
  shows "f st' = f st"
  using assms(2)
proof (induction js arbitrary: st)
  case Nil
  then show ?case by simp
next
  case (Cons j js)
  then obtain t where t: "body j st = Inr t" "for_each js body t = Inr st'"
    by (auto split: sum.splits)
  from Cons.IH [OF t(2)] assms(1) [OF t(1)] show ?case by simp
qed

lemma for_each_invariant:
  assumes "\<And>j t t'. body j t = Inr t' \<Longrightarrow> I t \<Longrightarrow> I t'"
    and "for_each js body st = Inr st'" "I st"
  shows "I st'"
  using assms(2,3)
proof (induction js arbitrary: st)
  case Nil
  then show ?case by simp
next
  case (Cons j js)
  then obtain t where t: "body j st = Inr t" "for_each js body t = Inr st'"
    by (auto split: sum.splits)
  from Cons.IH [OF t(2)] assms(1) [OF t(1) Cons.prems(2)] show ?case by simp
qed

lemma upt_snoc: "[0..<Suc m] = [0..<m] @ [m]"
  by simp

lemma upt_small:
  "[0..<1] = [0]" "[0..<2] = [0, 1]" "[0..<3] = [0, 1, 2]" "[1..<3] = [1, 2]"
  "[1..<2] = [1]" "[1..<1] = []" "[2..<3] = [2]" "[1..<4] = [1, 2, 3]" "[0..<4] = [0, 1, 2, 3]"
  by (simp_all add: upt_rec)

lemma upt_small_Suc: "[Suc 0..<3] = [1, 2]" "[Suc 0..<2] = [1]" "[Suc 0..<Suc 0] = []"
  by (simp_all add: upt_rec)

lemma replicate_small: "replicate 2 x = [x, x]" "replicate 3 x = [x, x, x]"
  by (simp_all add: numeral_2_eq_2 numeral_3_eq_3)

lemmas ex_defs = ex_params_def ex_god_def ex_store_def sim0_def simulate_def numThreads_def

lemmas gen_defs = generation_def init_population_def seed_body_def gen_call_def
     free_seed_body_def delete_obj_def breed_def breed_body_def commit_body_def
     evaluate_def run_threads_def Process_def make_td_def Process_body_def
     Heap_new_def Flush_def Insert_def Pop_def welford_step_def merge_stats_def stats0_def drain_body_def
     select_body_def max_element_def algoScoreSort_def minScoreHeap_def maxScoreHeap_def
     report_generation_def fdiv_def odiv_def osub_def release_def release_body_def return_best_def
     return_winner_def
     patientComplete_def


subsection \<open>Workers, slices and the selection structure\<close>

lemma length_place: "length (place h x ys) = Suc (length ys)"
  by (induction ys) auto

lemma capacity_Insert: "capacity (Insert h x hp) = capacity hp"
  by (simp add: Insert_def)

lemma length_Insert:
  assumes "length (items hp) \<le> capacity hp"
  shows "length (items (Insert h x hp)) = min (capacity hp) (Suc (length (items hp)))"
proof (cases "length (items hp) < capacity hp")
  case True
  then show ?thesis by (simp add: Insert_def length_place)
next
  case False
  with assms have full: "length (items hp) = capacity hp" by simp
  have "length (place h x (butlast (items hp))) = length (items hp)" if "items hp \<noteq> []"
    using that by (cases "items hp" rule: rev_cases) (simp_all add: length_place)
  then have "length (items (Insert h x hp)) = length (items hp)"
    using False by (simp add: Insert_def)
  with full show ?thesis by simp
qed

lemma set_place: "set (place h x ys) = insert x (set ys)"
  by (induction ys) auto

lemma set_Insert: "set (items (Insert h x hp)) \<subseteq> insert x (set (items hp))"
  by (auto simp: Insert_def set_place dest: in_set_butlastD)

text \<open>The scenario of the spec (section 8) for the structure: capacity 2 under the
  minimizing policy, the scores \<open>(true, 3)\<close>, \<open>(true, 1)\<close>, \<open>(false, 0)\<close>, \<open>(true, 2)\<close> in
  this order; the first \<^verbatim>\<open>Pop\<close> gives \<open>(true, 1)\<close> and leaves \<open>(true, 2)\<close>.\<close>

lemma Heap_spec_scenario:
  "Pop (Insert minScoreHeap \<lparr>algo = 4, ascore = \<lparr>success = True, score = 2\<rparr>\<rparr>
         (Insert minScoreHeap \<lparr>algo = 3, ascore = \<lparr>success = False, score = 0\<rparr>\<rparr>
           (Insert minScoreHeap \<lparr>algo = 2, ascore = \<lparr>success = True, score = 1\<rparr>\<rparr>
             (Insert minScoreHeap \<lparr>algo = 1, ascore = \<lparr>success = True, score = 3\<rparr>\<rparr>
               (Heap_new 2)))))
   = Inr (\<lparr>algo = 2, ascore = \<lparr>success = True, score = 1\<rparr>\<rparr>,
          \<lparr>capacity = 2, items = [\<lparr>algo = 4, ascore = \<lparr>success = True, score = 2\<rparr>\<rparr>]\<rparr>)"
  by (simp add: Pop_def Insert_def Heap_new_def minScoreHeap_def)

lemma Process_loop_size:
  assumes "\<forall>i\<in>set is. i < length popl \<and> ob (popl ! i) \<noteq> None"
    and "length (items (w_scores w)) \<le> capacity (w_scores w)"
  shows "\<exists>w'. for_each is (Process_body s ob popl td) w = Inr w' \<and>
           capacity (w_scores w') = capacity (w_scores w) \<and>
           length (items (w_scores w')) =
             min (capacity (w_scores w)) (length (items (w_scores w)) + length is)"
  using assms
proof (induction "is" arbitrary: w)
  case Nil
  then show ?case by simp
next
  case (Cons i "is")
  from Cons.prems(1) obtain a where a: "i < length popl" "ob (popl ! i) = Some a"
    by auto
  obtain m bar where wf: "welford_step (i - start td + 1)
       (score (process s a)) (xM w, xBar w) = (m, bar)"
    by (cases "welford_step (i - start td + 1) (score (process s a)) (xM w, xBar w)")
  let ?w1 = "\<lparr>w_scores = Insert (order_H s) \<lparr>algo = popl ! i, ascore = process s a\<rparr> (w_scores w),
              xM = m, xBar = bar\<rparr>"
  have step: "Process_body s ob popl td i w = Inr ?w1"
    using a wf by (simp add: Process_body_def Let_def)
  have len1: "length (items (w_scores ?w1)) = min (capacity (w_scores w)) (Suc (length (items (w_scores w))))"
    using Cons.prems(2) by (simp add: length_Insert)
  have cap1: "capacity (w_scores ?w1) = capacity (w_scores w)"
    by (simp add: capacity_Insert)
  have "\<exists>w'. for_each is (Process_body s ob popl td) ?w1 = Inr w' \<and>
           capacity (w_scores w') = capacity (w_scores ?w1) \<and>
           length (items (w_scores w')) =
             min (capacity (w_scores ?w1)) (length (items (w_scores ?w1)) + length is)"
    using Cons.prems(1) len1 cap1 by (intro Cons.IH) auto
  then show ?case
    using step len1 cap1 by (auto simp: min_def)
qed

lemma drain_loop:
  assumes "length (items g) \<le> capacity g"
  shows "if length is \<le> length (items l)
         then \<exists>l' g'. for_each is (drain_body h) (l, g) = Inr (l', g') \<and>
                capacity g' = capacity g \<and>
                length (items g') = min (capacity g) (length (items g) + length is)
         else for_each is (drain_body h) (l, g) = Inl PopEmpty"
  using assms
proof (induction "is" arbitrary: l g)
  case Nil
  then show ?case by simp
next
  case (Cons i "is")
  show ?case
  proof (cases "items l")
    case Nil
    then show ?thesis by (simp add: drain_body_def Pop_def)
  next
    case (Cons x xs)
    let ?l1 = "l\<lparr>items := xs\<rparr>" and ?g1 = "Insert h x g"
    have step: "drain_body h i (l, g) = Inr (?l1, ?g1)"
      using Cons by (simp add: drain_body_def Pop_def)
    have g1: "length (items ?g1) \<le> capacity ?g1" "capacity ?g1 = capacity g"
      "length (items ?g1) = min (capacity g) (Suc (length (items g)))"
      using Cons.prems by (simp_all add: length_Insert capacity_Insert)
    have IH: "if length is \<le> length (items ?l1)
         then \<exists>l' g'. for_each is (drain_body h) (?l1, ?g1) = Inr (l', g') \<and>
                capacity g' = capacity ?g1 \<and>
                length (items g') = min (capacity ?g1) (length (items ?g1) + length is)
         else for_each is (drain_body h) (?l1, ?g1) = Inl PopEmpty"
      using g1(1) by (rule Cons.IH)
    show ?thesis
      using IH step g1(2,3) Cons by (auto simp: min_def split: if_splits)
  qed
qed

lemma Process_pops:
  assumes "start td \<le> stop td" "stop td \<le> length popl"
    and "\<forall>p\<in>set popl. ob p \<noteq> None"
    and "length (items (scores g)) \<le> capacity (scores g)"
  shows "if successorSize td \<le> stop td - start td
         then \<exists>sh'. Process s ob popl td g = Inr sh' \<and>
                capacity (scores sh') = capacity (scores g) \<and>
                length (items (scores sh')) =
                  min (capacity (scores g)) (length (items (scores g)) + successorSize td)
         else Process s ob popl td g = Inl PopEmpty"
proof -
  let ?w0 = "\<lparr>w_scores = Heap_new (successorSize td), xM = 0, xBar = 0\<rparr> :: worker"
  have "\<forall>i\<in>set [start td..<stop td]. i < length popl \<and> ob (popl ! i) \<noteq> None"
    using assms(2,3) by auto
  moreover have "length (items (w_scores ?w0)) \<le> capacity (w_scores ?w0)"
    by (simp add: Heap_new_def)
  ultimately obtain w where w: "for_each [start td..<stop td] (Process_body s ob popl td) ?w0 = Inr w"
    "capacity (w_scores w) = capacity (w_scores ?w0)"
    "length (items (w_scores w)) =
       min (capacity (w_scores ?w0)) (length (items (w_scores ?w0)) + length [start td..<stop td])"
    using Process_loop_size [of "[start td..<stop td]" popl ob ?w0 s td] by blast
  have lw: "length (items (w_scores w)) = min (successorSize td) (stop td - start td)"
    using w(3) by (simp add: Heap_new_def)
  have d: "if length [0..<successorSize td] \<le> length (items (w_scores w))
         then \<exists>l' g'. for_each [0..<successorSize td] (drain_body (order_H s)) (w_scores w, scores g) = Inr (l', g') \<and>
                capacity g' = capacity (scores g) \<and>
                length (items g') = min (capacity (scores g)) (length (items (scores g)) + length [0..<successorSize td])
         else for_each [0..<successorSize td] (drain_body (order_H s)) (w_scores w, scores g) = Inl PopEmpty"
    using assms(4) by (rule drain_loop)
  show ?thesis
  proof (cases "successorSize td \<le> stop td - start td")
    case True
    then have "length [0..<successorSize td] \<le> length (items (w_scores w))"
      using lw by simp
    with d obtain l' g' where
      "for_each [0..<successorSize td] (drain_body (order_H s)) (w_scores w, scores g) = Inr (l', g')"
      "capacity g' = capacity (scores g)"
      "length (items g') = min (capacity (scores g)) (length (items (scores g)) + successorSize td)"
      by auto
    with True w(1) show ?thesis by (simp add: Process_def Let_def)
  next
    case False
    then have "\<not> length [0..<successorSize td] \<le> length (items (w_scores w))"
      using lw by simp
    with d have "for_each [0..<successorSize td] (drain_body (order_H s)) (w_scores w, scores g) = Inl PopEmpty"
      by simp
    with False w(1) show ?thesis by (simp add: Process_def Let_def)
  qed
qed

lemma slice_arith:
  assumes "j < n" "n * m_populationSize g < 2 ^ 32"
  shows "start (make_td g n j) = j * m_populationSize g div n \<and>
         stop (make_td g n j) = (j + 1) * m_populationSize g div n"
proof -
  let ?P = "m_populationSize g"
  have "j \<le> n" "j + 1 \<le> n" using assms(1) by simp_all
  then have "j * ?P \<le> n * ?P" "(j + 1) * ?P \<le> n * ?P" by (simp_all only: mult_le_mono1)
  then have lt: "j * ?P < 2 ^ 32" "(j + 1) * ?P < 2 ^ 32" using assms(2) by linarith+
  have a: "start (make_td g n j) = j * ?P div n"
    using lt by (simp add: make_td_def)
  have "stop (make_td g n j) = (j + 1) * ?P div n"
  proof (cases "j = n - 1")
    case True
    then have "j + 1 = n" using assms(1) by simp
    then have "(j + 1) * ?P div n = ?P" using assms(1) by simp
    with True show ?thesis by (simp add: make_td_def)
  next
    case False
    then show ?thesis using lt(2) by (simp add: make_td_def)
  qed
  with a show ?thesis by simp
qed

lemma slice_bounds:
  assumes "j < n" "n * m_populationSize g < 2 ^ 32"
  shows "start (make_td g n j) \<le> stop (make_td g n j)"
    and "stop (make_td g n j) \<le> m_populationSize g"
    and "m_populationSize g div n \<le> stop (make_td g n j) - start (make_td g n j)"
proof -
  let ?P = "m_populationSize g"
  note sa = slice_arith [OF assms]
  show "start (make_td g n j) \<le> stop (make_td g n j)"
    using sa by (simp add: div_le_mono)
  have "j + 1 \<le> n" using assms(1) by simp
  then have "(j + 1) * ?P \<le> n * ?P" by (rule mult_le_mono1)
  then have "(j + 1) * ?P div n \<le> n * ?P div n" by (rule div_le_mono)
  then show "stop (make_td g n j) \<le> ?P" using sa assms(1) by simp
  have "(j * ?P + ?P) div n = j * ?P div n + ?P div n + (j * ?P mod n + ?P mod n) div n"
    by (rule div_add1_eq)
  then have "?P div n \<le> (j * ?P + ?P) div n - j * ?P div n"
    by linarith
  moreover have "(j + 1) * ?P = j * ?P + ?P" by simp
  ultimately show "?P div n \<le> stop (make_td g n j) - start (make_td g n j)"
    using sa by (simp only:)
qed

lemma slice_first:
  assumes "0 < n" "n * m_populationSize g < 2 ^ 32"
  shows "stop (make_td g n 0) - start (make_td g n 0) = m_populationSize g div n"
  using slice_arith [OF assms] by simp

lemma successorSize_make_td [simp]: "successorSize (make_td g n j) = m_successorSize g"
  by (simp add: make_td_def)

lemma run_threads_Cons:
  "run_threads s n (j # js) st =
     (case Process s (objs (mem st)) (population st) (make_td (god s) n j) (sh st) of
        Inl e \<Rightarrow> Inl e
      | Inr sh' \<Rightarrow> run_threads s n js (st\<lparr>sh := sh'\<rparr>))"
  by (simp add: run_threads_def split: sum.splits)

lemma run_threads_pops:
  assumes "\<forall>j\<in>set js. j < n" "n * m_populationSize (god s) < 2 ^ 32"
    and "length (population st) = m_populationSize (god s)"
    and "\<forall>p\<in>set (population st). objs (mem st) p \<noteq> None"
    and "length (items (scores (sh st))) \<le> capacity (scores (sh st))"
  shows "if \<forall>j\<in>set js. m_successorSize (god s)
                \<le> stop (make_td (god s) n j) - start (make_td (god s) n j)
         then \<exists>st'. run_threads s n js st = Inr st' \<and>
                population st' = population st \<and> mem st' = mem st \<and>
                capacity (scores (sh st')) = capacity (scores (sh st)) \<and>
                length (items (scores (sh st'))) =
                  min (capacity (scores (sh st)))
                      (length (items (scores (sh st))) + m_successorSize (god s) * length js)
         else run_threads s n js st = Inl PopEmpty"
  using assms
proof (induction js arbitrary: st)
  case Nil
  then show ?case by (simp add: run_threads_def)
next
  case (Cons j js)
  let ?td = "make_td (god s) n j"
  let ?k = "m_successorSize (god s)"
  have jn: "j < n" using Cons.prems(1) by simp
  have b: "start ?td \<le> stop ?td" "stop ?td \<le> length (population st)"
    using slice_bounds(1,2) [OF jn Cons.prems(2)] Cons.prems(3) by simp_all
  note P = Process_pops [OF b Cons.prems(4) Cons.prems(5), of s]
  show ?case
  proof (cases "?k \<le> stop ?td - start ?td")
    case False
    then have "Process s (objs (mem st)) (population st) ?td (sh st) = Inl PopEmpty"
      using P by simp
    with False show ?thesis by (simp add: run_threads_Cons)
  next
    case True
    then obtain sh' where sh': "Process s (objs (mem st)) (population st) ?td (sh st) = Inr sh'"
      "capacity (scores sh') = capacity (scores (sh st))"
      "length (items (scores sh')) =
         min (capacity (scores (sh st))) (length (items (scores (sh st))) + ?k)"
      using P by auto
    let ?st1 = "st\<lparr>sh := sh'\<rparr>"
    have IH: "if \<forall>j\<in>set js. ?k \<le> stop (make_td (god s) n j) - start (make_td (god s) n j)
         then \<exists>st'. run_threads s n js ?st1 = Inr st' \<and>
                population st' = population ?st1 \<and> mem st' = mem ?st1 \<and>
                capacity (scores (sh st')) = capacity (scores (sh ?st1)) \<and>
                length (items (scores (sh st'))) =
                  min (capacity (scores (sh ?st1)))
                      (length (items (scores (sh ?st1))) + ?k * length js)
         else run_threads s n js ?st1 = Inl PopEmpty"
      using Cons.prems sh'(2,3) by (intro Cons.IH) simp_all
    show ?thesis
    proof (cases "\<forall>j\<in>set js. ?k \<le> stop (make_td (god s) n j) - start (make_td (god s) n j)")
      case False
      with IH sh'(1) show ?thesis by (simp add: run_threads_Cons)
    next
      case all: True
      with IH obtain st' where st': "run_threads s n js ?st1 = Inr st'"
        "population st' = population st" "mem st' = mem st"
        "capacity (scores (sh st')) = capacity (scores (sh st))"
        "length (items (scores (sh st'))) =
           min (capacity (scores (sh st)))
             (min (capacity (scores (sh st))) (length (items (scores (sh st))) + ?k) + ?k * length js)"
        using sh'(2,3) by auto
      have "length (items (scores (sh st'))) =
              min (capacity (scores (sh st)))
                  (length (items (scores (sh st))) + ?k * length (j # js))"
        using st'(5) by (simp add: min_def)
      with all True st' sh'(1) show ?thesis by (simp add: run_threads_Cons)
    qed
  qed
qed

lemma select_loop:
  "if length is \<le> length (items (scores (sh st)))
   then \<exists>st'. for_each is select_body st = Inr st' \<and>
          population st' = population st \<and> mem st' = mem st \<and>
          length (algoscores st') = length (algoscores st)
   else for_each is select_body st = Inl PopEmpty"
proof (induction "is" arbitrary: st)
  case Nil
  then show ?case by simp
next
  case (Cons i "is")
  show ?case
  proof (cases "items (scores (sh st))")
    case Nil
    then show ?thesis by (simp add: select_body_def Pop_def)
  next
    case (Cons x xs)
    let ?st1 = "st\<lparr>algoscores := (algoscores st)[i := x], sh := (sh st)\<lparr>scores := (scores (sh st))\<lparr>items := xs\<rparr>\<rparr>\<rparr>"
    have step: "select_body i st = Inr ?st1"
      using Cons by (simp add: select_body_def Pop_def)
    from Cons.IH [of ?st1] step Cons show ?thesis
      by (auto split: if_splits)
  qed
qed

lemma drain_moves:
  "length is \<le> length (items l) \<Longrightarrow>
   for_each is (drain_body h) (l, g) =
     Inr (l\<lparr>items := drop (length is) (items l)\<rparr>,
          foldl (\<lambda>hp x. Insert h x hp) g (take (length is) (items l)))"
proof (induction "is" arbitrary: l g)
  case Nil
  then show ?case by simp
next
  case (Cons i "is")
  then obtain x xs where xs: "items l = x # xs" by (cases "items l") auto
  have step: "drain_body h i (l, g) = Inr (l\<lparr>items := xs\<rparr>, Insert h x g)"
    using xs by (simp add: drain_body_def Pop_def)
  have "length is \<le> length (items (l\<lparr>items := xs\<rparr>))" using Cons.prems xs by simp
  from Cons.IH [OF this, of "Insert h x g"] step xs show ?case by simp
qed

lemma drain_faults:
  "\<not> length is \<le> length (items l) \<Longrightarrow> for_each is (drain_body h) (l, g) = Inl PopEmpty"
proof (induction "is" arbitrary: l g)
  case Nil
  then show ?case by simp
next
  case (Cons i "is")
  show ?case
  proof (cases "items l")
    case Nil
    then show ?thesis by (simp add: drain_body_def Pop_def)
  next
    case (Cons x xs)
    have step: "drain_body h i (l, g) = Inr (l\<lparr>items := xs\<rparr>, Insert h x g)"
      using Cons by (simp add: drain_body_def Pop_def)
    have "\<not> length is \<le> length (items (l\<lparr>items := xs\<rparr>))" using Cons.prems Cons by simp
    from Cons.IH [OF this, of "Insert h x g"] step show ?thesis by simp
  qed
qed

lemma Process_moves:
  assumes "for_each [start td..<stop td] (Process_body s ob popl td)
             \<lparr>w_scores = Heap_new (successorSize td), xM = 0, xBar = 0\<rparr> = Inr w"
  shows "Process s ob popl td g =
           (if successorSize td \<le> length (items (w_scores w))
            then Inr \<lparr>scores = foldl (\<lambda>hp x. Insert (order_H s) x hp) (scores g)
                                 (take (successorSize td) (items (w_scores w))),
                      pop = merge_stats (pop g)
                              \<lparr>M = xM w, Bar = xBar w,
                               N = (stop td + 2 ^ 32 - start td) mod 2 ^ 32\<rparr>\<rparr>
            else Inl PopEmpty)"
proof (cases "successorSize td \<le> length (items (w_scores w))")
  case True
  then have "length [0..<successorSize td] \<le> length (items (w_scores w))" by simp
  from drain_moves [OF this, of "order_H s" "scores g"] True assms
  show ?thesis by (simp add: Process_def Let_def)
next
  case False
  then have "\<not> length [0..<successorSize td] \<le> length (items (w_scores w))" by simp
  from drain_faults [OF this, of "order_H s" "scores g"] False assms
  show ?thesis by (simp add: Process_def Let_def)
qed

lemma select_moves:
  assumes "m \<le> length (items (scores (sh st)))" "m \<le> length (algoscores st)"
  shows "for_each [0..<m] select_body st =
           Inr (st\<lparr>algoscores := take m (items (scores (sh st))) @ drop m (algoscores st),
                   sh := (sh st)\<lparr>scores := (scores (sh st))
                                   \<lparr>items := drop m (items (scores (sh st)))\<rparr>\<rparr>\<rparr>)"
  using assms
proof (induction m)
  case 0
  then show ?case by simp
next
  case (Suc m)
  let ?xs = "items (scores (sh st))"
  let ?t = "st\<lparr>algoscores := take m ?xs @ drop m (algoscores st),
                 sh := (sh st)\<lparr>scores := (scores (sh st))\<lparr>items := drop m ?xs\<rparr>\<rparr>\<rparr>"
  have IH: "for_each [0..<m] select_body st = Inr ?t" using Suc by simp
  have m: "m < length ?xs" "m < length (algoscores st)" using Suc.prems by simp_all
  have d: "drop m ?xs = ?xs ! m # drop (Suc m) ?xs"
    using m(1) by (simp add: Cons_nth_drop_Suc)
  have step: "select_body m ?t =
        Inr (?t\<lparr>algoscores := (algoscores ?t)[m := ?xs ! m],
                sh := (sh ?t)\<lparr>scores := (scores (sh ?t))\<lparr>items := drop (Suc m) ?xs\<rparr>\<rparr>\<rparr>)"
    using d by (simp add: select_body_def Pop_def)
  have upd: "(take m ?xs @ drop m (algoscores st))[m := ?xs ! m] =
             take (Suc m) ?xs @ drop (Suc m) (algoscores st)"
  proof -
    have l: "length (take m ?xs) = m" using m(1) by simp
    have a: "drop m (algoscores st) = algoscores st ! m # drop (Suc m) (algoscores st)"
      using m(2) by (simp add: Cons_nth_drop_Suc)
    have "(take m ?xs @ drop m (algoscores st))[m := ?xs ! m] =
          take m ?xs @ (drop m (algoscores st))[0 := ?xs ! m]"
      using l by (simp add: list_update_append)
    also have "\<dots> = take m ?xs @ ?xs ! m # drop (Suc m) (algoscores st)"
      by (subst a) simp
    also have "\<dots> = take (Suc m) ?xs @ drop (Suc m) (algoscores st)"
      using m(1) by (simp add: take_Suc_conv_app_nth)
    finally show ?thesis .
  qed
  show ?case
    unfolding upt_snoc for_each_append IH
    using step upd by simp
qed

lemma select_faults:
  "\<not> length is \<le> length (items (scores (sh st))) \<Longrightarrow> for_each is select_body st = Inl PopEmpty"
  using select_loop [of "is" st] by simp

lemma run_threads_algoscores:
  assumes "run_threads s n js st = Inr st'"
  shows "algoscores st' = algoscores st"
  by (rule for_each_preserves [OF _ assms [unfolded run_threads_def]])
     (auto split: sum.splits)

text \<open>
  Claim C9. In every generation each worker pops \<^verbatim>\<open>successorSize\<close> times from its own
  structure into the engine's (line 101), and the engine pops \<^verbatim>\<open>m_successorSize\<close> times from
  its own into \<^verbatim>\<open>algoscores\<close> (line 296), whatever was inserted.

  A worker whose first loop has run moves the first \<^verbatim>\<open>successorSize\<close> elements of its
  structure, best first, into the engine's and merges its statistics, if its structure holds
  that many; otherwise one of its \<^verbatim>\<open>Pop\<close>s finds the structure empty.

  For a population of live individuals, \<open>n\<close> workers that each take the mutex once,
  products within 32 bits and \<^verbatim>\<open>algoscores\<close> of \<^verbatim>\<open>m_successorSize\<close> elements, lines 276 to 297
  run without a fault exactly when \<^verbatim>\<open>m_successorSize\<close> is \<open>0\<close>, or there is a worker and
  \<open>m_successorSize \<le> m_populationSize div n\<close>, the size of the smallest slice. The workers
  then leave \<^verbatim>\<open>m_successorSize\<close> elements in the engine's structure, and the engine ends with
  exactly these, in the order in which \<^verbatim>\<open>Pop\<close> returns them, as \<^verbatim>\<open>algoscores\<close> and with its
  structure empty. Otherwise a \<^verbatim>\<open>Pop\<close> finds its structure empty: a worker's (line 101) when
  there are workers, the engine's (line 296) when there are none.
\<close>

theorem pops_need_full_slices:
  assumes "mset (sched s i) = mset [0..<n]"
    and "n * m_populationSize (god s) < 2 ^ 32"
    and "length (population st) = m_populationSize (god s)"
    and "\<forall>p\<in>set (population st). objs (mem st) p \<noteq> None"
    and "capacity (scores (sh st)) = m_successorSize (god s)"
    and "length (algoscores st) = m_successorSize (god s)"
  shows "(if m_successorSize (god s) = 0 \<or>
             (0 < n \<and> m_successorSize (god s) \<le> m_populationSize (god s) div n)
          then \<exists>st2. run_threads s n (sched s i)
                        (st\<lparr>sh := \<lparr>scores = Flush (scores (sh st)), pop = Some stats0\<rparr>\<rparr>) = Inr st2 \<and>
                 length (items (scores (sh st2))) = m_successorSize (god s) \<and>
                 capacity (scores (sh st2)) = m_successorSize (god s) \<and>
                 population st2 = population st \<and> mem st2 = mem st \<and>
                 evaluate s n i st =
                   Inr (st2\<lparr>algoscores := items (scores (sh st2)),
                            sh := (sh st2)\<lparr>scores := (scores (sh st2))\<lparr>items := []\<rparr>\<rparr>\<rparr>)
          else evaluate s n i st = Inl PopEmpty \<and>
               run_threads s n (sched s i)
                 (st\<lparr>sh := \<lparr>scores = Flush (scores (sh st)), pop = Some stats0\<rparr>\<rparr>) =
                 (if n = 0
                  then Inr (st\<lparr>sh := \<lparr>scores = Flush (scores (sh st)), pop = Some stats0\<rparr>\<rparr>)
                  else Inl PopEmpty)) \<and>
         (\<forall>ob popl td g w.
            for_each [start td..<stop td] (Process_body s ob popl td)
              \<lparr>w_scores = Heap_new (successorSize td), xM = 0, xBar = 0\<rparr> = Inr w \<longrightarrow>
            Process s ob popl td g =
              (if successorSize td \<le> length (items (w_scores w))
               then Inr \<lparr>scores = foldl (\<lambda>hp x. Insert (order_H s) x hp) (scores g)
                                    (take (successorSize td) (items (w_scores w))),
                         pop = merge_stats (pop g)
                                 \<lparr>M = xM w, Bar = xBar w,
                                  N = (stop td + 2 ^ 32 - start td) mod 2 ^ 32\<rparr>\<rparr>
               else Inl PopEmpty))"
proof (intro conjI allI impI)
  fix ob popl td g w
  assume "for_each [start td..<stop td] (Process_body s ob popl td)
            \<lparr>w_scores = Heap_new (successorSize td), xM = 0, xBar = 0\<rparr> = Inr w"
  then show "Process s ob popl td g =
              (if successorSize td \<le> length (items (w_scores w))
               then Inr \<lparr>scores = foldl (\<lambda>hp x. Insert (order_H s) x hp) (scores g)
                                    (take (successorSize td) (items (w_scores w))),
                         pop = merge_stats (pop g)
                                 \<lparr>M = xM w, Bar = xBar w,
                                  N = (stop td + 2 ^ 32 - start td) mod 2 ^ 32\<rparr>\<rparr>
               else Inl PopEmpty)"
    by (rule Process_moves)
next
  let ?k = "m_successorSize (god s)" and ?P = "m_populationSize (god s)"
  let ?js = "sched s i"
  let ?st0 = "st\<lparr>sh := \<lparr>scores = Flush (scores (sh st)), pop = Some stats0\<rparr>\<rparr>"
  let ?ok = "?k = 0 \<or> (0 < n \<and> ?k \<le> ?P div n)"
  let ?good = "\<lambda>st2. run_threads s n ?js ?st0 = Inr st2 \<and>
                 length (items (scores (sh st2))) = ?k \<and>
                 capacity (scores (sh st2)) = ?k \<and>
                 population st2 = population st \<and> mem st2 = mem st \<and>
                 evaluate s n i st =
                   Inr (st2\<lparr>algoscores := items (scores (sh st2)),
                            sh := (sh st2)\<lparr>scores := (scores (sh st2))\<lparr>items := []\<rparr>\<rparr>\<rparr>)"
  have set_js: "set ?js = {0..<n}"
    using assms(1) by (metis mset_eq_setD set_upt)
  have len_js: "length ?js = n"
    using assms(1) by (metis mset_eq_length length_upt diff_zero)
  have sel: "evaluate s n i st =
               Inr (st2\<lparr>algoscores := items (scores (sh st2)),
                        sh := (sh st2)\<lparr>scores := (scores (sh st2))\<lparr>items := []\<rparr>\<rparr>\<rparr>)"
    if r: "run_threads s n ?js ?st0 = Inr st2" and l: "length (items (scores (sh st2))) = ?k"
    for st2
  proof -
    have "algoscores st2 = algoscores ?st0" using r by (rule run_threads_algoscores)
    then have la: "length (algoscores st2) = ?k" using assms(6) by simp
    have "for_each [0..<?k] select_body st2 =
            Inr (st2\<lparr>algoscores := take ?k (items (scores (sh st2))) @ drop ?k (algoscores st2),
                     sh := (sh st2)\<lparr>scores := (scores (sh st2))
                                     \<lparr>items := drop ?k (items (scores (sh st2)))\<rparr>\<rparr>\<rparr>)"
      using l la by (intro select_moves) simp_all
    then show ?thesis using r l la by (simp add: evaluate_def)
  qed
  show "if ?ok then \<exists>st2. ?good st2
        else evaluate s n i st = Inl PopEmpty \<and>
             run_threads s n ?js ?st0 = (if n = 0 then Inr ?st0 else Inl PopEmpty)"
  proof (cases "n = 0")
    case True
    then have js: "?js = []" using len_js by simp
    have r: "run_threads s n ?js ?st0 = Inr ?st0" by (simp add: js run_threads_def)
    show ?thesis
    proof (cases "?k = 0")
      case k: True
      have ok: "?ok" using k by simp
      have "?good ?st0" using r k sel [of ?st0] assms(5) by (simp add: Flush_def)
      then have "\<exists>st2. ?good st2" ..
      then show ?thesis by (simp only: ok if_True)
    next
      case k: False
      have "\<not> length [0..<?k] \<le> length (items (scores (sh ?st0)))"
        using k by (simp add: Flush_def)
      then have "for_each [0..<?k] select_body ?st0 = Inl PopEmpty" by (rule select_faults)
      then show ?thesis using r k True by (simp add: evaluate_def)
    qed
  next
    case False
    then have n: "0 < n" by simp
    have all: "(\<forall>j\<in>set ?js. ?k \<le> stop (make_td (god s) n j) - start (make_td (god s) n j))
               \<longleftrightarrow> ?k \<le> ?P div n"
    proof
      assume a: "\<forall>j\<in>set ?js. ?k \<le> stop (make_td (god s) n j) - start (make_td (god s) n j)"
      have "0 \<in> set ?js" using set_js n by simp
      with a have "?k \<le> stop (make_td (god s) n 0) - start (make_td (god s) n 0)" by blast
      then show "?k \<le> ?P div n" using slice_first [OF n assms(2)] by simp
    next
      assume a: "?k \<le> ?P div n"
      show "\<forall>j\<in>set ?js. ?k \<le> stop (make_td (god s) n j) - start (make_td (god s) n j)"
      proof
        fix j assume "j \<in> set ?js"
        then have "j < n" using set_js by simp
        from slice_bounds(3) [OF this assms(2)] a
        show "?k \<le> stop (make_td (god s) n j) - start (make_td (god s) n j)" by simp
      qed
    qed
    have R: "if \<forall>j\<in>set ?js. ?k \<le> stop (make_td (god s) n j) - start (make_td (god s) n j)
           then \<exists>st'. run_threads s n ?js ?st0 = Inr st' \<and>
                  population st' = population ?st0 \<and> mem st' = mem ?st0 \<and>
                  capacity (scores (sh st')) = capacity (scores (sh ?st0)) \<and>
                  length (items (scores (sh st'))) =
                    min (capacity (scores (sh ?st0)))
                        (length (items (scores (sh ?st0))) + ?k * length ?js)
           else run_threads s n ?js ?st0 = Inl PopEmpty"
      using assms(2-4) set_js by (intro run_threads_pops) (simp_all add: Flush_def)
    have ok: "?ok \<longleftrightarrow> ?k \<le> ?P div n" using n by auto
    show ?thesis
    proof (cases "?k \<le> ?P div n")
      case k: False
      with all R have "run_threads s n ?js ?st0 = Inl PopEmpty" by simp
      then show ?thesis using k ok False by (simp add: evaluate_def)
    next
      case k: True
      with all R obtain st2 where st2: "run_threads s n ?js ?st0 = Inr st2"
        "population st2 = population st" "mem st2 = mem st"
        "capacity (scores (sh st2)) = ?k"
        "length (items (scores (sh st2))) = min ?k (?k * n)"
        using assms(5) len_js by (auto simp: Flush_def)
      have "?k \<le> ?k * n" using n by simp
      then have l: "length (items (scores (sh st2))) = ?k" using st2(5) by simp
      have "?good st2" using st2(1-4) l sel [OF st2(1) l] by simp
      then have "\<exists>st2. ?good st2" ..
      moreover have "?ok" using k ok by simp
      ultimately show ?thesis by (simp only: if_True)
    qed
  qed
qed


theorem pops_need_full_slices_witness:
  "(\<exists>st2. run_threads (ex_params minScoreHeap patientComplete (\<lambda>i. [0]) (ex_god 3 2 1 1)) 1 [0]
            (ex_sim\<lparr>sh := \<lparr>scores = Flush (scores (sh ex_sim)), pop = Some stats0\<rparr>\<rparr>) = Inr st2 \<and>
          length (items (scores (sh st2))) = 2 \<and>
          evaluate (ex_params minScoreHeap patientComplete (\<lambda>i. [0]) (ex_god 3 2 1 1)) 1 1 ex_sim =
            Inr (st2\<lparr>algoscores := items (scores (sh st2)),
                     sh := (sh st2)\<lparr>scores := (scores (sh st2))\<lparr>items := []\<rparr>\<rparr>\<rparr>)) \<and>
   evaluate (ex_params minScoreHeap patientComplete (\<lambda>i. [1, 0]) (ex_god 3 2 1 1)) 2 1 ex_sim
     = Inl PopEmpty \<and>
   run_threads (ex_params minScoreHeap patientComplete (\<lambda>i. [1, 0]) (ex_god 3 2 1 1)) 2 [1, 0]
     (ex_sim\<lparr>sh := \<lparr>scores = Flush (scores (sh ex_sim)), pop = Some stats0\<rparr>\<rparr>) = Inl PopEmpty \<and>
   evaluate (ex_params minScoreHeap patientComplete (\<lambda>i. []) (ex_god 3 2 1 1)) 0 1 ex_sim
     = Inl PopEmpty \<and>
   Process (ex_params minScoreHeap patientComplete (\<lambda>i. [0]) (ex_god 3 2 1 1))
       [2 \<mapsto> 2, 3 \<mapsto> 3, 4 \<mapsto> 4] [2, 3, 4] \<lparr>start = 0, stop = 3, successorSize = 2\<rparr>
       \<lparr>scores = Heap_new 2, pop = Some stats0\<rparr>
     = Inr \<lparr>scores = \<lparr>capacity = 2,
                          items = [\<lparr>algo = 2, ascore = \<lparr>success = False, score = 2\<rparr>\<rparr>,
                                   \<lparr>algo = 3, ascore = \<lparr>success = False, score = 3\<rparr>\<rparr>]\<rparr>,
            pop = Some \<lparr>M = 2, Bar = 3, N = 3\<rparr>\<rparr>"
proof -
  let ?a = "ex_params minScoreHeap patientComplete (\<lambda>i. [0]) (ex_god 3 2 1 1)"
  let ?b = "ex_params minScoreHeap patientComplete (\<lambda>i. [1, 0]) (ex_god 3 2 1 1)"
  let ?c = "ex_params minScoreHeap patientComplete (\<lambda>i. []) (ex_god 3 2 1 1)"
  have a: "mset (sched ?a 1) = mset [0..<1]"
    "1 * m_populationSize (god ?a) < 2 ^ 32"
    "length (population ex_sim) = m_populationSize (god ?a)"
    "\<forall>p\<in>set (population ex_sim). objs (mem ex_sim) p \<noteq> None"
    "capacity (scores (sh ex_sim)) = m_successorSize (god ?a)"
    "length (algoscores ex_sim) = m_successorSize (god ?a)"
    by (simp_all add: ex_params_def ex_god_def ex_sim_def Heap_new_def)
  have b: "mset (sched ?b 1) = mset [0..<2]"
    "2 * m_populationSize (god ?b) < 2 ^ 32"
    "length (population ex_sim) = m_populationSize (god ?b)"
    "\<forall>p\<in>set (population ex_sim). objs (mem ex_sim) p \<noteq> None"
    "capacity (scores (sh ex_sim)) = m_successorSize (god ?b)"
    "length (algoscores ex_sim) = m_successorSize (god ?b)"
    by (simp_all add: ex_params_def ex_god_def ex_sim_def Heap_new_def upt_small)
  have c: "mset (sched ?c 1) = mset [0..<0]"
    "0 * m_populationSize (god ?c) < 2 ^ 32"
    "length (population ex_sim) = m_populationSize (god ?c)"
    "\<forall>p\<in>set (population ex_sim). objs (mem ex_sim) p \<noteq> None"
    "capacity (scores (sh ex_sim)) = m_successorSize (god ?c)"
    "length (algoscores ex_sim) = m_successorSize (god ?c)"
    by (simp_all add: ex_params_def ex_god_def ex_sim_def Heap_new_def)
  have w: "for_each [start \<lparr>start = 0, stop = 3, successorSize = 2\<rparr>..<
                     stop \<lparr>start = 0, stop = 3, successorSize = 2\<rparr>]
             (Process_body ?a [2 \<mapsto> 2, 3 \<mapsto> 3, 4 \<mapsto> 4] [2, 3, 4]
                \<lparr>start = 0, stop = 3, successorSize = 2\<rparr>)
             \<lparr>w_scores = Heap_new (successorSize \<lparr>start = 0, stop = 3, successorSize = 2\<rparr>),
              xM = 0, xBar = 0\<rparr>
           = Inr \<lparr>w_scores = \<lparr>capacity = 2,
                     items = [\<lparr>algo = 2, ascore = \<lparr>success = False, score = 2\<rparr>\<rparr>,
                              \<lparr>algo = 3, ascore = \<lparr>success = False, score = 3\<rparr>\<rparr>]\<rparr>,
                  xM = 2, xBar = 3\<rparr>"
    by (simp add: ex_params_def ex_god_def Process_body_def Heap_new_def Insert_def
          welford_step_def minScoreHeap_def upt_small Let_def)
  let ?f = "ex_sim\<lparr>sh := \<lparr>scores = Flush (scores (sh ex_sim)), pop = Some stats0\<rparr>\<rparr>"
  let ?td = "\<lparr>start = 0, stop = 3, successorSize = 2\<rparr>"
  have sa: "sched ?a 1 = [0]" "m_successorSize (god ?a) = 2" "order_H ?a = minScoreHeap"
    and sb: "sched ?b 1 = [1, 0]"
    by (simp_all add: ex_params_def ex_god_def)
  have oka: "m_successorSize (god ?a) = 0 \<or>
             0 < (1::nat) \<and> m_successorSize (god ?a) \<le> m_populationSize (god ?a) div 1"
    and okb: "\<not> (m_successorSize (god ?b) = 0 \<or>
             0 < (2::nat) \<and> m_successorSize (god ?b) \<le> m_populationSize (god ?b) div 2)"
    and okc: "\<not> (m_successorSize (god ?c) = 0 \<or>
             0 < (0::nat) \<and> m_successorSize (god ?c) \<le> m_populationSize (god ?c) div 0)"
    by (simp_all add: ex_params_def ex_god_def)
  from pops_need_full_slices [OF a, THEN conjunct1, unfolded if_P [OF oka]]
  obtain st2 where st2: "run_threads ?a 1 (sched ?a 1) ?f = Inr st2"
    "length (items (scores (sh st2))) = m_successorSize (god ?a)"
    "evaluate ?a 1 1 ex_sim =
       Inr (st2\<lparr>algoscores := items (scores (sh st2)),
                sh := (sh st2)\<lparr>scores := (scores (sh st2))\<lparr>items := []\<rparr>\<rparr>\<rparr>)"
    by auto
  have A: "\<exists>st2. run_threads ?a 1 [0] ?f = Inr st2 \<and>
          length (items (scores (sh st2))) = 2 \<and>
          evaluate ?a 1 1 ex_sim =
            Inr (st2\<lparr>algoscores := items (scores (sh st2)),
                     sh := (sh st2)\<lparr>scores := (scores (sh st2))\<lparr>items := []\<rparr>\<rparr>\<rparr>)"
    using st2 unfolding sa by (intro exI [of _ st2] conjI)
  have B: "evaluate ?b 2 1 ex_sim = Inl PopEmpty" "run_threads ?b 2 [1, 0] ?f = Inl PopEmpty"
    using pops_need_full_slices [OF b, THEN conjunct1, unfolded if_not_P [OF okb]] unfolding sb by simp_all
  have C: "evaluate ?c 0 1 ex_sim = Inl PopEmpty"
    using pops_need_full_slices [OF c, THEN conjunct1, unfolded if_not_P [OF okc]] by simp
  have D: "Process ?a [2 \<mapsto> 2, 3 \<mapsto> 3, 4 \<mapsto> 4] [2, 3, 4] ?td
             \<lparr>scores = Heap_new 2, pop = Some stats0\<rparr>
     = Inr \<lparr>scores = \<lparr>capacity = 2,
                          items = [\<lparr>algo = 2, ascore = \<lparr>success = False, score = 2\<rparr>\<rparr>,
                                   \<lparr>algo = 3, ascore = \<lparr>success = False, score = 3\<rparr>\<rparr>]\<rparr>,
            pop = Some \<lparr>M = 2, Bar = 3, N = 3\<rparr>\<rparr>"
    using pops_need_full_slices [OF a, THEN conjunct2, rule_format, OF w,
            of "\<lparr>scores = Heap_new 2, pop = Some stats0\<rparr>"]
    unfolding sa
    by (simp add: Heap_new_def Insert_def minScoreHeap_def merge_stats_def stats0_def)
  show ?thesis
    using A B C D by (intro conjI)
qed

lemma Process_loop_stats:
  assumes "for_each [a..<b] (Process_body s ob popl td) w = Inr w'" "start td \<le> a"
  shows "(xM w', xBar w') =
           welford_from (a - start td + 1)
             (map (\<lambda>i. score (process s (the (ob (popl ! i))))) [a..<b]) (xM w, xBar w)"
  using assms
proof (induction "b - a" arbitrary: a w)
  case 0
  then show ?case by simp
next
  case (Suc d)
  then have ab: "a < b" by simp
  then have upt: "[a..<b] = a # [Suc a..<b]" by (simp add: upt_rec)
  from Suc.prems(1) obtain w1 where w1: "Process_body s ob popl td a w = Inr w1"
    "for_each [Suc a..<b] (Process_body s ob popl td) w1 = Inr w'"
    by (auto simp: upt split: sum.splits)
  have step: "(xM w1, xBar w1) =
     welford_step (a - start td + 1) (score (process s (the (ob (popl ! a))))) (xM w, xBar w)"
    using w1(1) by (auto simp: Process_body_def Let_def split: if_splits option.splits prod.splits)
  have "d = b - Suc a" using Suc.hyps(2) by simp
  from Suc.hyps(1) [OF this w1(2)] Suc.prems(2)
  have "(xM w', xBar w') =
           welford_from (Suc a - start td + 1)
             (map (\<lambda>i. score (process s (the (ob (popl ! i))))) [Suc a..<b]) (xM w1, xBar w1)"
    by simp
  moreover have "Suc a - start td + 1 = Suc (a - start td + 1)" using Suc.prems(2) by simp
  ultimately show ?case
    unfolding upt step by simp
qed

lemma Process_stats:
  assumes "Process s ob popl td g = Inr sh'" "start td \<le> stop td" "stop td < 2 ^ 32"
  shows "pop sh' = merge_stats (pop g)
           (local_stats (map (\<lambda>i. score (process s (the (ob (popl ! i))))) [start td..<stop td]))"
proof -
  let ?w0 = "\<lparr>w_scores = Heap_new (successorSize td), xM = 0, xBar = 0\<rparr> :: worker"
  from assms(1) obtain w where w: "for_each [start td..<stop td] (Process_body s ob popl td) ?w0 = Inr w"
    by (auto simp: Process_def split: sum.splits)
  have xN: "(stop td + 2 ^ 32 - start td) mod 2 ^ 32 = stop td - start td"
  proof -
    have "stop td + 2 ^ 32 - start td = (stop td - start td) + 1 * 2 ^ 32"
      using assms(2) by simp
    moreover have "stop td - start td < 2 ^ 32" using assms(3) by simp
    ultimately show ?thesis by (simp only: mod_mult_self1 mod_less)
  qed
  have "(xM w, xBar w) = welford_from 1
       (map (\<lambda>i. score (process s (the (ob (popl ! i))))) [start td..<stop td]) (0, 0)"
    using Process_loop_stats [OF w] by simp
  then have "welford_from 1
       (map (\<lambda>i. score (process s (the (ob (popl ! i))))) [start td..<stop td]) (0, 0)
       = (xM w, xBar w)" by (rule sym)
  then have "local_stats (map (\<lambda>i. score (process s (the (ob (popl ! i))))) [start td..<stop td])
        = \<lparr>M = xM w, Bar = xBar w, N = stop td - start td\<rparr>"
    by (simp add: local_stats_def)
  with assms(1) w xN show ?thesis
    by (auto simp: Process_def Let_def split: sum.splits)
qed

lemma Process_members:
  assumes "Process s ob popl td g = Inr g'"
    and "\<forall>a\<in>set (items (scores g)). algo a \<in> set popl"
  shows "\<forall>a\<in>set (items (scores g')). algo a \<in> set popl"
proof -
  let ?w0 = "\<lparr>w_scores = Heap_new (successorSize td), xM = 0, xBar = 0\<rparr> :: worker"
  from assms(1) obtain w l where w:
    "for_each [start td..<stop td] (Process_body s ob popl td) ?w0 = Inr w"
    "for_each [0..<successorSize td] (drain_body (order_H s)) (w_scores w, scores g) = Inr (l, scores g')"
    by (auto simp: Process_def Let_def split: sum.splits)
  have "\<forall>a\<in>set (items (w_scores w)). algo a \<in> set popl"
  proof (rule for_each_invariant
      [where I = "\<lambda>t. \<forall>a\<in>set (items (w_scores t)). algo a \<in> set popl", OF _ w(1)])
    show "\<forall>a\<in>set (items (w_scores ?w0)). algo a \<in> set popl" by (simp add: Heap_new_def)
  next
    fix j t t'
    assume b: "Process_body s ob popl td j t = Inr t'"
      and i: "\<forall>a\<in>set (items (w_scores t)). algo a \<in> set popl"
    from b obtain c where c: "j < length popl"
      "w_scores t' = Insert (order_H s) \<lparr>algo = popl ! j, ascore = process s c\<rparr> (w_scores t)"
      by (auto simp: Process_body_def Let_def split: if_splits option.splits prod.splits)
    show "\<forall>a\<in>set (items (w_scores t')). algo a \<in> set popl"
    proof
      fix a assume "a \<in> set (items (w_scores t'))"
      then have "a = \<lparr>algo = popl ! j, ascore = process s c\<rparr> \<or> a \<in> set (items (w_scores t))"
        using c(2) set_Insert by fastforce
      then show "algo a \<in> set popl" using i c(1) by auto
    qed
  qed
  then have start: "\<forall>a\<in>set (items (fst (w_scores w, scores g))) \<union> set (items (snd (w_scores w, scores g))).
                 algo a \<in> set popl"
    using assms(2) by auto
  have "\<forall>a\<in>set (items (fst (l, scores g'))) \<union> set (items (snd (l, scores g'))). algo a \<in> set popl"
  proof (rule for_each_invariant
      [where I = "\<lambda>t. \<forall>a\<in>set (items (fst t)) \<union> set (items (snd t)). algo a \<in> set popl",
       OF _ w(2) start])
    fix j and t t' :: "AlgoScore Heap \<times> AlgoScore Heap"
    assume b: "drain_body (order_H s) j t = Inr t'"
      and i: "\<forall>a\<in>set (items (fst t)) \<union> set (items (snd t)). algo a \<in> set popl"
    from b obtain x xs where x: "items (fst t) = x # xs" "items (fst t') = xs"
      "snd t' = Insert (order_H s) x (snd t)"
      by (cases t) (auto simp: drain_body_def Pop_def split: list.splits)
    show "\<forall>a\<in>set (items (fst t')) \<union> set (items (snd t')). algo a \<in> set popl"
    proof
      fix a assume "a \<in> set (items (fst t')) \<union> set (items (snd t'))"
      then have "a \<in> set xs \<or> a = x \<or> a \<in> set (items (snd t))"
        using x(2,3) set_Insert by fastforce
      then show "algo a \<in> set popl" using i x(1) by auto
    qed
  qed
  then show ?thesis by simp
qed

lemma run_threads_members:
  assumes "run_threads s n js st = Inr st'"
    and "\<forall>a\<in>set (items (scores (sh st))). algo a \<in> set (population st)"
  shows "population st' = population st \<and> mem st' = mem st \<and> m_seeds st' = m_seeds st \<and>
         best st' = best st \<and> algoscores st' = algoscores st \<and>
         (\<forall>a\<in>set (items (scores (sh st'))). algo a \<in> set (population st))"
proof -
  let ?I = "\<lambda>t. population t = population st \<and> mem t = mem st \<and> m_seeds t = m_seeds st \<and>
         best t = best st \<and> algoscores t = algoscores st \<and>
         (\<forall>a\<in>set (items (scores (sh t))). algo a \<in> set (population st))"
  show ?thesis
  proof (rule for_each_invariant [where I = ?I, OF _ assms(1) [unfolded run_threads_def]])
    show "?I st" using assms(2) by simp
  next
    fix j t t'
    assume b: "(case Process s (objs (mem t)) (population t) (make_td (god s) n j) (sh t) of
                  Inl e \<Rightarrow> Inl e | Inr sh' \<Rightarrow> Inr (t\<lparr>sh := sh'\<rparr>)) = Inr t'"
      and i: "?I t"
    from b obtain sh' where sh': "Process s (objs (mem t)) (population t) (make_td (god s) n j) (sh t) = Inr sh'"
      "t' = t\<lparr>sh := sh'\<rparr>"
      by (auto split: sum.splits)
    from Process_members [OF sh'(1)] i
    have "\<forall>a\<in>set (items (scores sh')). algo a \<in> set (population st)" by simp
    with i sh'(2) show "?I t'" by simp
  qed
qed

lemma select_members:
  assumes "\<forall>a\<in>set (items (scores (sh st))). algo a \<in> A" "m \<le> length (algoscores st)"
    and "for_each [0..<m] select_body st = Inr st'"
  shows "population st' = population st \<and> mem st' = mem st \<and> m_seeds st' = m_seeds st \<and>
         best st' = best st \<and> length (algoscores st') = length (algoscores st) \<and>
         (\<forall>a\<in>set (items (scores (sh st'))). algo a \<in> A) \<and>
         (\<forall>j<m. algo (algoscores st' ! j) \<in> A)"
  using assms(2,3)
proof (induction m arbitrary: st')
  case 0
  then show ?case using assms(1) by simp
next
  case (Suc m)
  from Suc.prems(2) obtain t where t: "for_each [0..<m] select_body st = Inr t"
    "select_body m t = Inr st'"
    by (auto simp: for_each_append split: sum.splits)
  from Suc.IH [OF _ t(1)] Suc.prems(1)
  have IH: "population t = population st" "mem t = mem st" "m_seeds t = m_seeds st"
    "best t = best st" "length (algoscores t) = length (algoscores st)"
    "\<forall>a\<in>set (items (scores (sh t))). algo a \<in> A" "\<forall>j<m. algo (algoscores t ! j) \<in> A"
    by simp_all
  from t(2) obtain x xs where x: "items (scores (sh t)) = x # xs"
    "st' = t\<lparr>algoscores := (algoscores t)[m := x],
             sh := (sh t)\<lparr>scores := (scores (sh t))\<lparr>items := xs\<rparr>\<rparr>\<rparr>"
    by (auto simp: select_body_def Pop_def split: list.splits)
  have "algo x \<in> A" "\<forall>a\<in>set xs. algo a \<in> A" using IH(6) x(1) by simp_all
  moreover have "m < length (algoscores t)" using IH(5) Suc.prems(1) by simp
  ultimately show ?case
    using x(2) IH by (auto simp: nth_list_update less_Suc_eq)
qed

lemma evaluate_members:
  assumes "evaluate s n i st = Inr st'" "length (algoscores st) = m_successorSize (god s)"
  shows "population st' = population st \<and> mem st' = mem st \<and> m_seeds st' = m_seeds st \<and>
         length (algoscores st') = m_successorSize (god s) \<and>
         algo ` set (algoscores st') \<subseteq> set (population st)"
proof -
  let ?st0 = "st\<lparr>sh := \<lparr>scores = Flush (scores (sh st)), pop = Some stats0\<rparr>\<rparr>"
  from assms(1) obtain t where t: "run_threads s n (sched s i) ?st0 = Inr t"
    "for_each [0..<m_successorSize (god s)] select_body t = Inr st'"
    by (auto simp: evaluate_def split: sum.splits)
  have "\<forall>a\<in>set (items (scores (sh ?st0))). algo a \<in> set (population ?st0)"
    by (simp add: Flush_def)
  from run_threads_members [OF t(1) this]
  have r: "population t = population st" "mem t = mem st" "m_seeds t = m_seeds st"
    "algoscores t = algoscores st"
    "\<forall>a\<in>set (items (scores (sh t))). algo a \<in> set (population st)"
    by simp_all
  have "m_successorSize (god s) \<le> length (algoscores t)" using r(4) assms(2) by simp
  from select_members [OF r(5) this t(2)] r assms(2)
  have e: "population st' = population st" "mem st' = mem st" "m_seeds st' = m_seeds st"
    "length (algoscores st') = m_successorSize (god s)"
    "\<forall>j<m_successorSize (god s). algo (algoscores st' ! j) \<in> set (population st)"
    by simp_all
  have "algo ` set (algoscores st') \<subseteq> set (population st)"
  proof
    fix p assume "p \<in> algo ` set (algoscores st')"
    then obtain j where "j < length (algoscores st')" "p = algo (algoscores st' ! j)"
      by (auto simp: in_set_conv_nth)
    then show "p \<in> set (population st)" using e(4,5) by simp
  qed
  with e show ?thesis by simp
qed


subsection \<open>Seeding the first generation\<close>

lemma seed_loop:
  assumes "m_seeds st \<noteq> []" "set (m_seeds st) \<subseteq> dom (objs (mem st))"
    and "dom (objs (mem st)) \<subseteq> {1..<fresh (mem st)}"
    and "m \<le> length (population st)"
  shows "\<exists>st'. for_each [0..<m] (seed_body s) st = Inr st' \<and>
           m_seeds st' = m_seeds st \<and>
           fresh (mem st') = fresh (mem st) + m \<and>
           length (population st') = length (population st) \<and>
           (\<forall>j<m. population st' ! j = fresh (mem st) + j) \<and>
           (\<forall>p. objs (mem st') p =
              (if fresh (mem st) \<le> p \<and> p < fresh (mem st) + m
               then Some (gen s p (the (objs (mem st)
                      (m_seeds st ! ((p - fresh (mem st)) mod length (m_seeds st))))))
               else objs (mem st) p))"
  using assms(4)
proof (induction m)
  case 0
  then show ?case by auto
next
  case (Suc m)
  then obtain t where t: "for_each [0..<m] (seed_body s) st = Inr t"
    "m_seeds t = m_seeds st" "fresh (mem t) = fresh (mem st) + m"
    "length (population t) = length (population st)"
    "\<forall>j<m. population t ! j = fresh (mem st) + j"
    "\<forall>p. objs (mem t) p =
              (if fresh (mem st) \<le> p \<and> p < fresh (mem st) + m
               then Some (gen s p (the (objs (mem st)
                      (m_seeds st ! ((p - fresh (mem st)) mod length (m_seeds st))))))
               else objs (mem st) p)"
    by auto
  let ?q = "m_seeds st ! (m mod length (m_seeds st))"
  have "?q \<in> set (m_seeds st)" using assms(1) by simp
  then obtain a where a: "objs (mem st) ?q = Some a" and "?q < fresh (mem st)"
    using assms(2,3) by fastforce
  then have qa: "objs (mem t) ?q = Some a" using t(6) by simp
  let ?t' = "t\<lparr>population := (population t)[m := fresh (mem t)],
               mem := (mem t)\<lparr>objs := (objs (mem t))(fresh (mem t) \<mapsto> gen s (fresh (mem t)) a),
                              fresh := Suc (fresh (mem t))\<rparr>\<rparr>"
  have step: "seed_body s m t = Inr ?t'"
    using assms(1) qa t(2) by (simp add: seed_body_def gen_call_def Let_def)
  have run: "for_each [0..<Suc m] (seed_body s) st = Inr ?t'"
    unfolding upt_snoc using t(1) step by (simp add: for_each_append)
  have pops: "\<forall>j<Suc m. population ?t' ! j = fresh (mem st) + j"
    using t(3,4,5) Suc.prems by (auto simp: nth_list_update less_Suc_eq)
  have objs': "\<forall>p. objs (mem ?t') p =
              (if fresh (mem st) \<le> p \<and> p < fresh (mem st) + Suc m
               then Some (gen s p (the (objs (mem st)
                      (m_seeds st ! ((p - fresh (mem st)) mod length (m_seeds st))))))
               else objs (mem st) p)"
    using t(3,6) a by (auto simp: less_Suc_eq)
  show ?case
    using run pops objs' t(2,3,4) by (intro exI [of _ ?t']) simp
qed

lemma zero_prefix_update:
  assumes "m < length xs"
  shows "(replicate m (0::nat) @ drop m xs)[m := 0] = replicate (Suc m) 0 @ drop (Suc m) xs"
proof -
  have "drop m xs = xs ! m # drop (Suc m) xs"
    using assms by (simp add: Cons_nth_drop_Suc)
  then show ?thesis
    by (simp add: list_update_append replicate_append_same)
qed

lemma free_seed_loop:
  assumes "distinct (m_seeds st)" "set (m_seeds st) \<subseteq> dom (objs (mem st))"
    and "objs (mem st) 0 = None" "m \<le> length (m_seeds st)"
  shows "\<exists>st'. for_each [0..<m] free_seed_body st = Inr st' \<and>
           m_seeds st' = replicate m 0 @ drop m (m_seeds st) \<and>
           population st' = population st \<and>
           fresh (mem st') = fresh (mem st) \<and>
           (\<forall>p. objs (mem st') p =
              (if p \<in> set (take m (m_seeds st)) then None else objs (mem st) p))"
  using assms(4)
proof (induction m)
  case 0
  then show ?case by simp
next
  case (Suc m)
  then obtain t where t: "for_each [0..<m] free_seed_body st = Inr t"
    "m_seeds t = replicate m 0 @ drop m (m_seeds st)"
    "population t = population st" "fresh (mem t) = fresh (mem st)"
    "\<forall>p. objs (mem t) p = (if p \<in> set (take m (m_seeds st)) then None else objs (mem st) p)"
    by auto
  let ?q = "m_seeds st ! m"
  have m: "m < length (m_seeds st)" using Suc.prems by simp
  have q: "m_seeds t ! m = ?q" using t(2) m by (simp add: nth_append)
  have "?q \<in> set (m_seeds st)" using m by simp
  then have live: "objs (mem st) ?q \<noteq> None" using assms(2) by auto
  have nz: "?q \<noteq> 0"
  proof
    assume "?q = 0"
    with live assms(3) show False by simp
  qed
  have "?q \<notin> set (take m (m_seeds st))"
    using assms(1) m by (auto simp: in_set_conv_nth distinct_conv_nth)
  then have live_t: "objs (mem t) ?q \<noteq> None" using t(5) live by simp
  let ?t' = "t\<lparr>mem := (mem t)\<lparr>objs := (objs (mem t))(?q := None)\<rparr>,
               m_seeds := (m_seeds t)[m := 0]\<rparr>"
  have step: "free_seed_body m t = Inr ?t'"
    using q nz live_t by (simp add: free_seed_body_def delete_obj_def)
  have run: "for_each [0..<Suc m] free_seed_body st = Inr ?t'"
    unfolding upt_snoc using t(1) step by (simp add: for_each_append)
  have seeds': "m_seeds ?t' = replicate (Suc m) 0 @ drop (Suc m) (m_seeds st)"
    using t(2) zero_prefix_update [OF m] by simp
  have objs': "\<forall>p. objs (mem ?t') p =
              (if p \<in> set (take (Suc m) (m_seeds st)) then None else objs (mem st) p)"
    using t(5) m by (auto simp: take_Suc_conv_app_nth)
  show ?case
    using run seeds' objs' t(3,4) by (intro exI [of _ ?t']) simp
qed

lemma init_population_result:
  assumes ne: "m_seeds st \<noteq> []" and dist: "distinct (m_seeds st)"
    and live: "set (m_seeds st) \<subseteq> dom (objs (mem st))"
    and dom: "dom (objs (mem st)) \<subseteq> {1..<fresh (mem st)}"
    and len: "length (population st) = m_populationSize (god s)"
  shows "\<exists>st'. init_population s st = Inr st' \<and>
           population st' = map (\<lambda>j. fresh (mem st) + j) [0..<m_populationSize (god s)] \<and>
           fresh (mem st') = fresh (mem st) + m_populationSize (god s) \<and>
           m_seeds st' = replicate (length (m_seeds st)) 0 \<and>
           (\<forall>p. objs (mem st') p =
              (if p \<in> set (m_seeds st) then None
               else if fresh (mem st) \<le> p \<and> p < fresh (mem st) + m_populationSize (god s)
               then Some (gen s p (the (objs (mem st)
                      (m_seeds st ! ((p - fresh (mem st)) mod length (m_seeds st))))))
               else objs (mem st) p))"
proof -
  let ?P = "m_populationSize (god s)"
  let ?f = "fresh (mem st)"
  have "?P \<le> length (population st)" using len by simp
  from seed_loop [OF ne live dom this, of s]
  obtain t where t: "for_each [0..<?P] (seed_body s) st = Inr t"
    "m_seeds t = m_seeds st" "fresh (mem t) = ?f + ?P"
    "length (population t) = length (population st)"
    "\<forall>j<?P. population t ! j = ?f + j"
    "\<forall>p. objs (mem t) p =
              (if ?f \<le> p \<and> p < ?f + ?P
               then Some (gen s p (the (objs (mem st)
                      (m_seeds st ! ((p - ?f) mod length (m_seeds st))))))
               else objs (mem st) p)"
    by auto
  have below: "p < ?f" "p \<noteq> 0" if "p \<in> dom (objs (mem st))" for p
    using dom that by auto
  have live_t: "set (m_seeds t) \<subseteq> dom (objs (mem t))"
  proof
    fix p assume "p \<in> set (m_seeds t)"
    then have "p \<in> dom (objs (mem st))" using t(2) live by auto
    then show "p \<in> dom (objs (mem t))" using t(6) below(1) [of p] by auto
  qed
  have f_pos: "0 < ?f"
  proof -
    obtain p where "p \<in> set (m_seeds st)" using ne by (cases "m_seeds st") auto
    then have "p \<in> dom (objs (mem st))" using live by auto
    from below(1) [OF this] show ?thesis by simp
  qed
  have zero_t: "objs (mem t) 0 = None"
  proof -
    have "0 \<notin> dom (objs (mem st))" using below(2) by blast
    then show ?thesis using t(6) f_pos by auto
  qed
  have "length (m_seeds t) \<le> length (m_seeds t)" by simp
  from free_seed_loop [OF _ live_t zero_t this] dist t(2)
  obtain st' where st': "for_each [0..<length (m_seeds t)] free_seed_body t = Inr st'"
    "m_seeds st' = replicate (length (m_seeds st)) 0"
    "population st' = population t" "fresh (mem st') = fresh (mem t)"
    "\<forall>p. objs (mem st') p = (if p \<in> set (m_seeds st) then None else objs (mem t) p)"
    by auto
  have run: "init_population s st = Inr st'"
    using t(1) st'(1) by (simp add: init_population_def)
  have pop: "population st' = map (\<lambda>j. ?f + j) [0..<?P]"
    using st'(3) t(4,5) len by (intro nth_equalityI) simp_all
  show ?thesis
    using run pop st'(2,4,5) t(3,6) by (intro exI [of _ st']) simp
qed

text \<open>
  Claim C10. Generation 1 (lines 246 to 255) needs seeds. With no seed and a population
  to fill, line 249 takes \<open>j mod 0\<close>. With seeds that are distinct live objects (the live
  addresses being non-null and below the next fresh one), every slot \<open>j\<close> of the population
  gets a new object, at an address that was not live, derived from seed
  \<open>j mod numSeeds\<close>; afterwards no seed is live and \<^verbatim>\<open>m_seeds\<close> holds null pointers only. A
  second \<^verbatim>\<open>delete\<close> of an object being a fault, the run without fault deletes every seed
  once.
\<close>

theorem seeding:
  "(m_seeds st = [] \<and> 0 < m_populationSize (god s) \<longrightarrow>
      init_population s st = Inl DivByZero) \<and>
   (m_seeds st \<noteq> [] \<and> distinct (m_seeds st) \<and>
    set (m_seeds st) \<subseteq> dom (objs (mem st)) \<and>
    dom (objs (mem st)) \<subseteq> {1..<fresh (mem st)} \<and>
    length (population st) = m_populationSize (god s) \<longrightarrow>
      (\<exists>st'. init_population s st = Inr st' \<and>
         length (population st') = m_populationSize (god s) \<and>
         distinct (population st') \<and>
         (\<forall>j<m_populationSize (god s).
            population st' ! j \<notin> dom (objs (mem st)) \<and>
            objs (mem st') (population st' ! j) =
              Some (gen s (population st' ! j)
                     (the (objs (mem st) (m_seeds st ! (j mod length (m_seeds st))))))) \<and>
         (\<forall>p\<in>set (m_seeds st). objs (mem st') p = None) \<and>
         m_seeds st' = replicate (length (m_seeds st)) 0))"
proof (intro conjI impI)
  assume a: "m_seeds st = [] \<and> 0 < m_populationSize (god s)"
  then have "[0..<m_populationSize (god s)] = 0 # [1..<m_populationSize (god s)]"
    by (simp add: upt_rec)
  moreover have "seed_body s 0 st = Inl DivByZero"
    using a by (simp add: seed_body_def)
  ultimately show "init_population s st = Inl DivByZero"
    by (simp add: init_population_def)
next
  let ?P = "m_populationSize (god s)"
  let ?f = "fresh (mem st)"
  assume a: "m_seeds st \<noteq> [] \<and> distinct (m_seeds st) \<and>
    set (m_seeds st) \<subseteq> dom (objs (mem st)) \<and>
    dom (objs (mem st)) \<subseteq> {1..<fresh (mem st)} \<and>
    length (population st) = ?P"
  then have h: "m_seeds st \<noteq> []" "distinct (m_seeds st)"
    "set (m_seeds st) \<subseteq> dom (objs (mem st))"
    "dom (objs (mem st)) \<subseteq> {1..<?f}" "length (population st) = ?P"
    by simp_all
  from init_population_result [OF h]
  obtain st' where r: "init_population s st = Inr st'"
    "population st' = map (\<lambda>j. ?f + j) [0..<?P]"
    "m_seeds st' = replicate (length (m_seeds st)) 0"
    "\<forall>p. objs (mem st') p =
              (if p \<in> set (m_seeds st) then None
               else if ?f \<le> p \<and> p < ?f + ?P
               then Some (gen s p (the (objs (mem st)
                      (m_seeds st ! ((p - ?f) mod length (m_seeds st))))))
               else objs (mem st) p)"
    by blast
  have below: "p < ?f" if "p \<in> dom (objs (mem st))" for p
    using h(4) that by auto
  have slots: "\<forall>j<?P. population st' ! j \<notin> dom (objs (mem st)) \<and>
            objs (mem st') (population st' ! j) =
              Some (gen s (population st' ! j)
                     (the (objs (mem st) (m_seeds st ! (j mod length (m_seeds st))))))"
  proof (intro allI impI)
    fix j assume j: "j < ?P"
    have pj: "population st' ! j = ?f + j" using r(2) j by simp
    have notold: "?f + j \<notin> dom (objs (mem st))" using below [of "?f + j"] by auto
    then have "?f + j \<notin> set (m_seeds st)" using h(3) by auto
    then have "objs (mem st') (?f + j) = Some (gen s (?f + j)
                     (the (objs (mem st) (m_seeds st ! (j mod length (m_seeds st))))))"
      using r(4) j by simp
    then show "population st' ! j \<notin> dom (objs (mem st)) \<and>
            objs (mem st') (population st' ! j) =
              Some (gen s (population st' ! j)
                     (the (objs (mem st) (m_seeds st ! (j mod length (m_seeds st))))))"
      using pj notold by simp
  qed
  have "distinct (population st')"
    unfolding r(2) by (simp add: distinct_map inj_on_def)
  moreover have "\<forall>p\<in>set (m_seeds st). objs (mem st') p = None"
    using r(4) by simp
  ultimately show "\<exists>st'. init_population s st = Inr st' \<and>
         length (population st') = ?P \<and>
         distinct (population st') \<and>
         (\<forall>j<?P.
            population st' ! j \<notin> dom (objs (mem st)) \<and>
            objs (mem st') (population st' ! j) =
              Some (gen s (population st' ! j)
                     (the (objs (mem st) (m_seeds st ! (j mod length (m_seeds st))))))) \<and>
         (\<forall>p\<in>set (m_seeds st). objs (mem st') p = None) \<and>
         m_seeds st' = replicate (length (m_seeds st)) 0"
    using r(1,2,3) slots by (intro exI [of _ st']) simp
qed

theorem seeding_witness:
  "init_population (ex_params minScoreHeap patientComplete (\<lambda>i. [0]) (ex_god 3 2 1 1))
     (sim0 (ex_params minScoreHeap patientComplete (\<lambda>i. [0]) (ex_god 3 2 1 1)) [] ex_store)
     = Inl DivByZero \<and>
   (\<exists>st'. init_population (ex_params minScoreHeap patientComplete (\<lambda>i. [0]) (ex_god 3 2 1 1))
            (sim0 (ex_params minScoreHeap patientComplete (\<lambda>i. [0]) (ex_god 3 2 1 1)) [1] ex_store)
            = Inr st' \<and>
          length (population st') = 3 \<and> objs (mem st') 1 = None \<and> m_seeds st' = [0])"
proof -
  let ?s = "ex_params minScoreHeap patientComplete (\<lambda>i. [0]) (ex_god 3 2 1 1)"
  have a: "m_seeds (sim0 ?s [] ex_store) = [] \<and> 0 < m_populationSize (god ?s)"
    by (simp add: sim0_def ex_params_def ex_god_def)
  have b: "m_seeds (sim0 ?s [1] ex_store) \<noteq> [] \<and> distinct (m_seeds (sim0 ?s [1] ex_store)) \<and>
    set (m_seeds (sim0 ?s [1] ex_store)) \<subseteq> dom (objs (mem (sim0 ?s [1] ex_store))) \<and>
    dom (objs (mem (sim0 ?s [1] ex_store))) \<subseteq> {1..<fresh (mem (sim0 ?s [1] ex_store))} \<and>
    length (population (sim0 ?s [1] ex_store)) = m_populationSize (god ?s)"
    by (simp add: sim0_def ex_params_def ex_god_def ex_store_def)
  have c: "m_populationSize (god ?s) = 3" "m_seeds (sim0 ?s [1] ex_store) = [1]"
    by (simp_all add: sim0_def ex_params_def ex_god_def)
  show ?thesis
    using seeding [of "sim0 ?s [] ex_store" ?s] seeding [of "sim0 ?s [1] ex_store" ?s] a b
    unfolding c by auto
qed


subsection \<open>Breeding\<close>

lemma breed_loop:
  assumes "0 < m_successorSize (god s)"
    and "\<forall>a\<in>set (algoscores st). algo a \<in> dom (objs (mem st))"
    and "length (algoscores st) = m_successorSize (god s)"
    and "dom (objs (mem st)) \<subseteq> {1..<fresh (mem st)}"
    and "Suc d \<le> length np"
  shows "\<exists>t np'. for_each [1..<Suc d] (breed_body s) (st, np) = Inr (t, np') \<and>
           algoscores t = algoscores st \<and> population t = population st \<and>
           best t = best st \<and>
           fresh (mem t) = fresh (mem st) + d \<and>
           length np' = length np \<and> np' ! 0 = np ! 0 \<and>
           (\<forall>j. 1 \<le> j \<and> j < Suc d \<longrightarrow> np' ! j = fresh (mem st) + (j - 1)) \<and>
           (\<forall>p. objs (mem t) p =
              (if fresh (mem st) \<le> p \<and> p < fresh (mem st) + d
               then Some (gen s p (the (objs (mem st)
                      (algo (algoscores st ! ((p - fresh (mem st) + 1) mod m_successorSize (god s)))))))
               else objs (mem st) p))"
  using assms(5)
proof (induction d)
  case 0
  then show ?case by auto
next
  case (Suc d)
  let ?k = "m_successorSize (god s)"
  from Suc obtain t np' where t: "for_each [1..<Suc d] (breed_body s) (st, np) = Inr (t, np')"
    "algoscores t = algoscores st" "population t = population st" "best t = best st"
    "fresh (mem t) = fresh (mem st) + d"
    "length np' = length np" "np' ! 0 = np ! 0"
    "\<forall>j. 1 \<le> j \<and> j < Suc d \<longrightarrow> np' ! j = fresh (mem st) + (j - 1)"
    "\<forall>p. objs (mem t) p =
              (if fresh (mem st) \<le> p \<and> p < fresh (mem st) + d
               then Some (gen s p (the (objs (mem st)
                      (algo (algoscores st ! ((p - fresh (mem st) + 1) mod ?k))))))
               else objs (mem st) p)"
    by auto
  let ?as = "algoscores st ! (Suc d mod ?k)"
  have "Suc d mod ?k < length (algoscores st)" using assms(1,3) by simp
  then have "?as \<in> set (algoscores st)" by simp
  then obtain a where a: "objs (mem st) (algo ?as) = Some a" and lt: "algo ?as < fresh (mem st)"
    using assms(2,4) by fastforce
  then have ta: "objs (mem t) (algo ?as) = Some a" using t(9) by simp
  let ?t' = "t\<lparr>mem := (mem t)\<lparr>objs := (objs (mem t))(fresh (mem t) \<mapsto> gen s (fresh (mem t)) a),
                              fresh := Suc (fresh (mem t))\<rparr>\<rparr>"
  let ?np' = "np'[Suc d := fresh (mem t)]"
  have step: "breed_body s (Suc d) (t, np') = Inr (?t', ?np')"
    using assms(1) ta t(2) by (simp add: breed_body_def gen_call_def Let_def)
  have upt: "[1..<Suc (Suc d)] = [1..<Suc d] @ [Suc d]" by simp
  have run: "for_each [1..<Suc (Suc d)] (breed_body s) (st, np) = Inr (?t', ?np')"
    unfolding upt using t(1) step by (simp add: for_each_append)
  have slots: "\<forall>j. 1 \<le> j \<and> j < Suc (Suc d) \<longrightarrow> ?np' ! j = fresh (mem st) + (j - 1)"
    using t(5,6,8) Suc.prems by (auto simp: nth_list_update less_Suc_eq)
  have objs': "\<forall>p. objs (mem ?t') p =
              (if fresh (mem st) \<le> p \<and> p < fresh (mem st) + Suc d
               then Some (gen s p (the (objs (mem st)
                      (algo (algoscores st ! ((p - fresh (mem st) + 1) mod ?k))))))
               else objs (mem st) p)"
    using t(5,9) a by (auto simp: less_Suc_eq)
  show ?case
    using run slots objs' t(2-7) Suc.prems
    by (intro exI [of _ ?t'] exI [of _ ?np']) simp
qed

lemma commit_loop:
  assumes "distinct (population t)" "set (population t) \<subseteq> dom (objs (mem t))"
    and "objs (mem t) 0 = None"
    and "m \<le> length (population t)" "length np = length (population t)"
  shows "\<exists>t'. for_each [0..<m] (commit_body b np) t = Inr t' \<and>
           population t' = take m np @ drop m (population t) \<and>
           fresh (mem t') = fresh (mem t) \<and>
           algoscores t' = algoscores t \<and> best t' = best t \<and>
           (\<forall>p. objs (mem t') p =
              (if p \<in> set (take m (population t)) \<and> p \<noteq> algo b then None
               else objs (mem t) p))"
  using assms(4)
proof (induction m)
  case 0
  then show ?case by simp
next
  case (Suc m)
  then obtain u where u: "for_each [0..<m] (commit_body b np) t = Inr u"
    "population u = take m np @ drop m (population t)"
    "fresh (mem u) = fresh (mem t)" "algoscores u = algoscores t" "best u = best t"
    "\<forall>p. objs (mem u) p =
              (if p \<in> set (take m (population t)) \<and> p \<noteq> algo b then None
               else objs (mem t) p)"
    by auto
  let ?q = "population t ! m"
  have m: "m < length (population t)" using Suc.prems by simp
  have q: "population u ! m = ?q"
    using u(2) m assms(5) by (simp add: nth_append)
  have "?q \<in> set (population t)" using m by simp
  then have live: "objs (mem t) ?q \<noteq> None" using assms(2) by auto
  have nz: "?q \<noteq> 0"
  proof
    assume "?q = 0"
    with live assms(3) show False by simp
  qed
  have "?q \<notin> set (take m (population t))"
    using assms(1) m by (auto simp: in_set_conv_nth distinct_conv_nth)
  then have live_u: "objs (mem u) ?q \<noteq> None" using u(6) live by simp
  let ?m' = "if ?q \<noteq> algo b then (mem u)\<lparr>objs := (objs (mem u))(?q := None)\<rparr> else mem u"
  let ?u' = "u\<lparr>mem := ?m', population := (population u)[m := np ! m]\<rparr>"
  have step: "commit_body b np m u = Inr ?u'"
    using q nz live_u by (auto simp: commit_body_def delete_obj_def)
  have run: "for_each [0..<Suc m] (commit_body b np) t = Inr ?u'"
    unfolding upt_snoc using u(1) step by (simp add: for_each_append)
  have "drop m (population t) = ?q # drop (Suc m) (population t)"
    using m by (simp add: Cons_nth_drop_Suc)
  then have pop': "population ?u' = take (Suc m) np @ drop (Suc m) (population t)"
    using u(2) m assms(5) by (simp add: list_update_append take_Suc_conv_app_nth)
  have objs': "\<forall>p. objs (mem ?u') p =
              (if p \<in> set (take (Suc m) (population t)) \<and> p \<noteq> algo b then None
               else objs (mem t) p)"
    using u(6) m by (auto simp: take_Suc_conv_app_nth)
  show ?case
    using run pop' objs' u(3,4,5) by (intro exI [of _ ?u']) simp
qed

lemma breed_result:
  assumes "best st = Some b" "b \<in> set (algoscores st)"
    and "0 < m_populationSize (god s)" "0 < m_successorSize (god s)"
    and "length (population st) = m_populationSize (god s)"
    and "length (algoscores st) = m_successorSize (god s)"
    and "distinct (population st)" "set (population st) \<subseteq> dom (objs (mem st))"
    and "\<forall>a\<in>set (algoscores st). algo a \<in> dom (objs (mem st))"
    and "dom (objs (mem st)) \<subseteq> {1..<fresh (mem st)}"
  shows "\<exists>st'. breed s st = Inr st' \<and>
           population st' =
             algo b # map (\<lambda>j. fresh (mem st) + j) [0..<m_populationSize (god s) - 1] \<and>
           fresh (mem st') = fresh (mem st) + (m_populationSize (god s) - 1) \<and>
           (\<forall>p. objs (mem st') p =
              (if p \<in> set (population st) \<and> p \<noteq> algo b then None
               else if fresh (mem st) \<le> p \<and> p < fresh (mem st) + (m_populationSize (god s) - 1)
               then Some (gen s p (the (objs (mem st)
                      (algo (algoscores st !
                         ((p - fresh (mem st) + 1) mod m_successorSize (god s)))))))
               else objs (mem st) p))"
proof -
  let ?P = "m_populationSize (god s)" and ?k = "m_successorSize (god s)"
  let ?f = "fresh (mem st)"
  let ?np0 = "(replicate ?P 0)[0 := algo b]"
  obtain d where d: "?P = Suc d" using assms(3) by (cases ?P) auto
  have below: "p < ?f" "p \<noteq> 0" if "p \<in> dom (objs (mem st))" for p
    using assms(10) that by auto
  have b_live: "algo b \<in> dom (objs (mem st))" using assms(2,9) by blast
  have "Suc d \<le> length ?np0" using d by simp
  from breed_loop [OF assms(4) assms(9) assms(6) assms(10) this]
  obtain t np where t: "for_each [1..<Suc d] (breed_body s) (st, ?np0) = Inr (t, np)"
    "algoscores t = algoscores st" "population t = population st" "best t = best st"
    "fresh (mem t) = ?f + d" "length np = length ?np0" "np ! 0 = ?np0 ! 0"
    "\<forall>j. 1 \<le> j \<and> j < Suc d \<longrightarrow> np ! j = ?f + (j - 1)"
    "\<forall>p. objs (mem t) p =
              (if ?f \<le> p \<and> p < ?f + d
               then Some (gen s p (the (objs (mem st)
                      (algo (algoscores st ! ((p - ?f + 1) mod ?k))))))
               else objs (mem st) p)"
    by blast
  have old: "objs (mem t) p = objs (mem st) p" if "p \<in> dom (objs (mem st))" for p
    using t(9) below(1) [OF that] by simp
  have c1: "distinct (population t)" using t(3) assms(7) by simp
  have c2: "set (population t) \<subseteq> dom (objs (mem t))"
  proof
    fix p assume "p \<in> set (population t)"
    then have "p \<in> dom (objs (mem st))" using t(3) assms(8) by auto
    then show "p \<in> dom (objs (mem t))" using old [of p] by auto
  qed
  have f_pos: "0 < ?f" using below(1) [OF b_live] by simp
  have c3: "objs (mem t) 0 = None"
  proof -
    have "0 \<notin> dom (objs (mem st))" using below(2) by blast
    then show ?thesis using t(9) f_pos by auto
  qed
  have c4: "?P \<le> length (population t)" using t(3) assms(5) by simp
  have c5: "length np = length (population t)" using t(3,6) assms(5) by simp
  from commit_loop [OF c1 c2 c3 c4 c5, of b]
  obtain st' where st': "for_each [0..<?P] (commit_body b np) t = Inr st'"
    "population st' = take ?P np @ drop ?P (population t)"
    "fresh (mem st') = fresh (mem t)"
    "\<forall>p. objs (mem st') p =
              (if p \<in> set (take ?P (population t)) \<and> p \<noteq> algo b then None
               else objs (mem t) p)"
    by blast
  have run: "breed s st = Inr st'"
    using assms(1,3) t(1) st'(1) d by (simp add: breed_def)
  have "length (population t) = ?P" using t(3) assms(5) by simp
  then have pop: "population st' = np" using st'(2) c5 by simp
  have np0: "np ! 0 = algo b" using t(7) assms(3) by simp
  have npj: "np ! j = ?f + (j - 1)" if "1 \<le> j" "j < ?P" for j
    using t(8) that d by simp
  have len: "length np = ?P" using t(6) by simp
  have np_eq: "np = algo b # map (\<lambda>j. ?f + j) [0..<d]"
  proof (intro nth_equalityI)
    show "length np = length (algo b # map (\<lambda>j. ?f + j) [0..<d])" using len d by simp
  next
    fix i assume "i < length np"
    then have i: "i < ?P" using len by simp
    show "np ! i = (algo b # map (\<lambda>j. ?f + j) [0..<d]) ! i"
    proof (cases i)
      case 0
      then show ?thesis using np0 by simp
    next
      case (Suc i')
      then show ?thesis using npj [of i] i d by simp
    qed
  qed
  have objs': "\<forall>p. objs (mem st') p =
      (if p \<in> set (population st) \<and> p \<noteq> algo b then None
       else if ?f \<le> p \<and> p < ?f + d
               then Some (gen s p (the (objs (mem st)
                      (algo (algoscores st ! ((p - ?f + 1) mod ?k))))))
               else objs (mem st) p)"
    using st'(4) t(3,9) assms(5) by simp
  show ?thesis
    using run pop np_eq st'(3) t(5) objs' d by (intro exI [of _ st']) simp
qed

lemma init_population_carries:
  assumes "init_population s st = Inr st'"
  shows "out st' = out st \<and> prevAvg st' = prevAvg st \<and> prevBest st' = prevBest st \<and>
         algoscores st' = algoscores st \<and> sh st' = sh st"
proof -
  let ?f = "\<lambda>t. (out t, prevAvg t, prevBest t, algoscores t, sh t)"
  from assms obtain t where t: "for_each [0..<m_populationSize (god s)] (seed_body s) st = Inr t"
    "for_each [0..<length (m_seeds t)] free_seed_body t = Inr st'"
    by (auto simp: init_population_def split: sum.splits)
  have "?f t = ?f st"
    by (rule for_each_preserves [OF _ t(1)])
       (auto simp: seed_body_def Let_def split: if_splits sum.splits)
  moreover have "?f st' = ?f t"
    by (rule for_each_preserves [OF _ t(2)])
       (auto simp: free_seed_body_def split: sum.splits)
  ultimately show ?thesis by simp
qed

lemma breed_carries:
  assumes "breed s st = Inr st'"
  shows "out st' = out st \<and> prevAvg st' = prevAvg st \<and> prevBest st' = prevBest st \<and>
         algoscores st' = algoscores st \<and> sh st' = sh st"
proof -
  let ?f = "\<lambda>t. (out t, prevAvg t, prevBest t, algoscores t, sh t)"
  from assms obtain b t np where t:
    "for_each [1..<m_populationSize (god s)] (breed_body s)
       (st, (replicate (m_populationSize (god s)) 0)[0 := algo b]) = Inr (t, np)"
    "for_each [0..<m_populationSize (god s)] (commit_body b np) t = Inr st'"
    by (auto simp: breed_def split: option.splits if_splits sum.splits)
  have "(?f \<circ> fst) (t, np) = (?f \<circ> fst) (st, (replicate (m_populationSize (god s)) 0)[0 := algo b])"
    by (rule for_each_preserves [OF _ t(1)])
       (auto simp: breed_body_def Let_def split: if_splits sum.splits)
  moreover have "?f st' = ?f t"
    by (rule for_each_preserves [OF _ t(2)])
       (auto simp: commit_body_def split: sum.splits if_splits)
  ultimately show ?thesis by simp
qed

lemma evaluate_carries:
  assumes "evaluate s n i st = Inr st'"
  shows "out st' = out st \<and> prevAvg st' = prevAvg st \<and> prevBest st' = prevBest st"
proof -
  let ?f = "\<lambda>t. (out t, prevAvg t, prevBest t)"
  let ?st0 = "st\<lparr>sh := \<lparr>scores = Flush (scores (sh st)), pop = Some stats0\<rparr>\<rparr>"
  from assms obtain t where t: "run_threads s n (sched s i) ?st0 = Inr t"
    "for_each [0..<m_successorSize (god s)] select_body t = Inr st'"
    by (auto simp: evaluate_def split: sum.splits)
  have "?f t = ?f ?st0"
    by (rule for_each_preserves [OF _ t(1) [unfolded run_threads_def]])
       (auto split: sum.splits)
  moreover have "?f st' = ?f t"
    by (rule for_each_preserves [OF _ t(2)])
       (auto simp: select_body_def split: sum.splits)
  ultimately show ?thesis by simp
qed

lemma generation_report:
  assumes "generation s n i st = Inr st'"
  shows "\<exists>line b. out st' = out st @ [line] \<and> r_generation line = i \<and>
           best st' = Some b \<and> max_element algoScoreSort (algoscores st') = Inr b \<and>
           r_success line = success (ascore b) \<and> r_score line = score (ascore b) \<and>
           r_change_avg line =
             map_option (\<lambda>q. q * 100)
               (odiv (map_option uminus (osub (map_option Bar (pop (sh st'))) (prevAvg st)))
                  (prevAvg st)) \<and>
           r_change_best line =
             map_option (\<lambda>q. q * 100) (fdiv (- (score (ascore b) - prevBest st)) (prevBest st))"
proof -
  from assms obtain st1 st3 b where g:
    "(if i = 1 then init_population s st else breed s st) = Inr st1"
    "evaluate s n i st1 = Inr st3"
    "max_element algoScoreSort (algoscores st3) = Inr b"
    "report_generation s i b (st3\<lparr>best := Some b\<rparr>) = Inr st'"
    by (auto simp: generation_def split: sum.splits)
  have c1: "out st1 = out st \<and> prevAvg st1 = prevAvg st \<and> prevBest st1 = prevBest st"
    using g(1) init_population_carries [of s st st1] breed_carries [of s st st1]
    by (auto split: if_splits)
  have c3: "out st3 = out st1 \<and> prevAvg st3 = prevAvg st1 \<and> prevBest st3 = prevBest st1"
    using g(2) by (rule evaluate_carries)
  show ?thesis
    using g(3,4) c1 c3
    by (auto simp: report_generation_def Let_def split: if_splits)
qed

lemma generation_steps:
  assumes "generation s n i st = Inr st2"
  shows "\<exists>st1 b. (if i = 1 then init_population s st else breed s st) = Inr st1 \<and>
           population st2 = population st1 \<and> mem st2 = mem st1 \<and>
           best st2 = Some b \<and> b \<in> set (algoscores st2) \<and>
           (length (algoscores st) = m_successorSize (god s) \<longrightarrow>
              length (algoscores st2) = m_successorSize (god s) \<and>
              algo ` set (algoscores st2) \<subseteq> set (population st1))"
proof -
  from assms obtain st1 st3 b where g:
    "(if i = 1 then init_population s st else breed s st) = Inr st1"
    "evaluate s n i st1 = Inr st3"
    "max_element algoScoreSort (algoscores st3) = Inr b"
    "report_generation s i b (st3\<lparr>best := Some b\<rparr>) = Inr st2"
    by (auto simp: generation_def split: sum.splits)
  have as1: "algoscores st1 = algoscores st"
    using g(1) init_population_carries [of s st st1] breed_carries [of s st st1]
    by (auto split: if_splits)
  have r: "population st2 = population st3" "mem st2 = mem st3" "algoscores st2 = algoscores st3"
    "best st2 = Some b"
    using g(4) by (auto simp: report_generation_def Let_def split: if_splits)
  have f: "population st3 = population st1 \<and> mem st3 = mem st1"
  proof -
    let ?st0 = "st1\<lparr>sh := \<lparr>scores = Flush (scores (sh st1)), pop = Some stats0\<rparr>\<rparr>"
    from g(2) obtain t where t: "run_threads s n (sched s i) ?st0 = Inr t"
      "for_each [0..<m_successorSize (god s)] select_body t = Inr st3"
      by (auto simp: evaluate_def split: sum.splits)
    have "(population t, mem t) = (population ?st0, mem ?st0)"
      by (rule for_each_preserves [where f = "\<lambda>t. (population t, mem t)",
            OF _ t(1) [unfolded run_threads_def]])
         (auto split: sum.splits)
    moreover have "(population st3, mem st3) = (population t, mem t)"
      by (rule for_each_preserves [where f = "\<lambda>t. (population t, mem t)", OF _ t(2)])
         (auto simp: select_body_def split: sum.splits)
    ultimately show ?thesis by simp
  qed
  have b: "b \<in> set (algoscores st3)"
  proof -
    obtain x rest where "algoscores st3 = x # rest" "b = max_element_from algoScoreSort x rest"
      using g(3) by (auto simp: max_element_def split: list.splits)
    then show ?thesis using max_element_from_mem [of algoScoreSort x rest] by simp
  qed
  have "length (algoscores st3) = m_successorSize (god s) \<and>
        algo ` set (algoscores st3) \<subseteq> set (population st1)"
    if "length (algoscores st) = m_successorSize (god s)"
    using evaluate_members [OF g(2)] that as1 by simp
  then show ?thesis
    using g(1) r f b by (intro exI [of _ st1] exI [of _ b]) simp
qed

lemma bred_sizes:
  assumes "bred s st"
  shows "0 < m_populationSize (god s)" "0 < m_successorSize (god s)"
proof -
  from assms obtain b where b: "best st = Some b" "b \<in> set (algoscores st)"
    by (auto simp: bred_def split: option.splits)
  then have "algoscores st \<noteq> []" by auto
  then show "0 < m_successorSize (god s)" using assms by (auto simp: bred_def)
  have "algo b \<in> set (population st)" using assms b(2) by (auto simp: bred_def)
  then have "population st \<noteq> []" by auto
  then show "0 < m_populationSize (god s)" using assms by (auto simp: bred_def)
qed

lemma seeded_init_population:
  assumes "seeded s st" "init_population s st = Inr st1"
  shows "length (population st1) = m_populationSize (god s) \<and> distinct (population st1) \<and>
         set (population st1) \<subseteq> dom (objs (mem st1)) \<and>
         dom (objs (mem st1)) \<subseteq> {1..<fresh (mem st1)}"
proof -
  let ?P = "m_populationSize (god s)" and ?f = "fresh (mem st)"
  have h: "m_seeds st \<noteq> []" "distinct (m_seeds st)" "set (m_seeds st) \<subseteq> dom (objs (mem st))"
    "dom (objs (mem st)) \<subseteq> {1..<?f}" "length (population st) = ?P"
    using assms(1) by (simp_all add: seeded_def)
  from init_population_result [OF h] assms(2)
  have r: "population st1 = map (\<lambda>j. ?f + j) [0..<?P]" "fresh (mem st1) = ?f + ?P"
    "\<forall>p. objs (mem st1) p =
              (if p \<in> set (m_seeds st) then None
               else if ?f \<le> p \<and> p < ?f + ?P
               then Some (gen s p (the (objs (mem st)
                      (m_seeds st ! ((p - ?f) mod length (m_seeds st))))))
               else objs (mem st) p)"
    by auto
  have old: "p < ?f \<and> 1 \<le> p" if "p \<in> dom (objs (mem st))" for p
    using h(4) that by auto
  have seeds_old: "p < ?f" if "p \<in> set (m_seeds st)" for p
    using old [of p] h(3) that by auto
  have "distinct (population st1)"
    unfolding r(1) by (simp add: distinct_map inj_on_def)
  moreover have "set (population st1) \<subseteq> dom (objs (mem st1))"
  proof
    fix p assume "p \<in> set (population st1)"
    then have p: "?f \<le> p" "p < ?f + ?P" using r(1) by auto
    then have "p \<notin> set (m_seeds st)" using seeds_old [of p] by auto
    then show "p \<in> dom (objs (mem st1))" using r(3) p by auto
  qed
  moreover have "dom (objs (mem st1)) \<subseteq> {1..<fresh (mem st1)}"
  proof
    fix p assume "p \<in> dom (objs (mem st1))"
    then have "(?f \<le> p \<and> p < ?f + ?P) \<or> p \<in> dom (objs (mem st))"
      using r(3) by (auto split: if_splits)
    moreover have "1 \<le> ?f"
    proof -
      obtain q where "q \<in> set (m_seeds st)" using h(1) by (cases "m_seeds st") auto
      then show ?thesis using seeds_old [of q] by simp
    qed
    moreover have "p < ?f \<and> 1 \<le> p" if "p \<in> dom (objs (mem st))"
      using old that by blast
    ultimately have "1 \<le> p \<and> p < ?f + ?P" by fastforce
    then show "p \<in> {1..<fresh (mem st1)}" using r(2) by simp
  qed
  ultimately show ?thesis using r(1) by simp
qed

lemma bred_breed:
  assumes "bred s st" "breed s st = Inr st1"
  shows "length (population st1) = m_populationSize (god s) \<and> distinct (population st1) \<and>
         set (population st1) \<subseteq> dom (objs (mem st1)) \<and>
         dom (objs (mem st1)) \<subseteq> {1..<fresh (mem st1)}"
proof -
  let ?P = "m_populationSize (god s)" and ?f = "fresh (mem st)"
  from assms(1) obtain b where b: "best st = Some b" "b \<in> set (algoscores st)"
    by (auto simp: bred_def split: option.splits)
  have h: "length (population st) = ?P" "length (algoscores st) = m_successorSize (god s)"
    "distinct (population st)" "set (population st) \<subseteq> dom (objs (mem st))"
    "\<forall>a\<in>set (algoscores st). algo a \<in> dom (objs (mem st))"
    "dom (objs (mem st)) \<subseteq> {1..<?f}"
    using assms(1) by (auto simp: bred_def)
  from breed_result [OF b bred_sizes [OF assms(1)] h] assms(2)
  have r: "population st1 = algo b # map (\<lambda>j. ?f + j) [0..<?P - 1]"
    "fresh (mem st1) = ?f + (?P - 1)"
    "\<forall>p. objs (mem st1) p =
              (if p \<in> set (population st) \<and> p \<noteq> algo b then None
               else if ?f \<le> p \<and> p < ?f + (?P - 1)
               then Some (gen s p (the (objs (mem st)
                      (algo (algoscores st !
                         ((p - ?f + 1) mod m_successorSize (god s)))))))
               else objs (mem st) p)"
    by auto
  have old: "p < ?f \<and> 1 \<le> p" if "p \<in> dom (objs (mem st))" for p
    using h(6) that by auto
  have b_live: "algo b \<in> dom (objs (mem st))" using b(2) h(5) by blast
  have pop_old: "p < ?f" if "p \<in> set (population st)" for p
    using old [of p] h(4) that by auto
  have "length (population st1) = ?P"
    using r(1) bred_sizes(1) [OF assms(1)] by simp
  moreover have "distinct (population st1)"
    unfolding r(1) using old [OF b_live] by (auto simp: distinct_map inj_on_def)
  moreover have "set (population st1) \<subseteq> dom (objs (mem st1))"
  proof
    fix p assume "p \<in> set (population st1)"
    then consider "p = algo b" | "?f \<le> p" "p < ?f + (?P - 1)" using r(1) by auto
    then show "p \<in> dom (objs (mem st1))"
    proof cases
      case 1
      then show ?thesis using r(3) b_live old [OF b_live] by auto
    next
      case 2
      then have "p \<notin> set (population st)" using pop_old [of p] by auto
      then show ?thesis using r(3) 2 by auto
    qed
  qed
  moreover have "dom (objs (mem st1)) \<subseteq> {1..<fresh (mem st1)}"
  proof
    fix p assume "p \<in> dom (objs (mem st1))"
    then have "(?f \<le> p \<and> p < ?f + (?P - 1)) \<or> p \<in> dom (objs (mem st))"
      using r(3) by (auto split: if_splits)
    moreover have "1 \<le> ?f" using old [OF b_live] by simp
    moreover have "p < ?f \<and> 1 \<le> p" if "p \<in> dom (objs (mem st))"
      using old that by blast
    ultimately have "1 \<le> p \<and> p < ?f + (?P - 1)" by fastforce
    then show "p \<in> {1..<fresh (mem st1)}" using r(2) by simp
  qed
  ultimately show ?thesis by simp
qed

lemma generation_bred:
  assumes "generation s n i st = Inr st2"
    and "if i = 1 then seeded s st else bred s st"
  shows "bred s st2"
proof -
  from generation_steps [OF assms(1)] obtain st1 b where g:
    "(if i = 1 then init_population s st else breed s st) = Inr st1"
    "population st2 = population st1" "mem st2 = mem st1"
    "best st2 = Some b" "b \<in> set (algoscores st2)"
    "length (algoscores st) = m_successorSize (god s) \<longrightarrow>
              length (algoscores st2) = m_successorSize (god s) \<and>
              algo ` set (algoscores st2) \<subseteq> set (population st1)"
    by blast
  have k: "length (algoscores st) = m_successorSize (god s)"
    using assms(2) by (auto simp: seeded_def bred_def split: if_splits)
  have "length (population st1) = m_populationSize (god s) \<and> distinct (population st1) \<and>
         set (population st1) \<subseteq> dom (objs (mem st1)) \<and>
         dom (objs (mem st1)) \<subseteq> {1..<fresh (mem st1)}"
    using g(1) assms(2) seeded_init_population [of s st st1] bred_breed [of s st st1]
    by (auto split: if_splits)
  with g k show ?thesis by (simp add: bred_def)
qed

lemma sim0_seeded:
  assumes "seeds \<noteq> []" "distinct seeds" "set seeds \<subseteq> dom (objs m)"
    and "dom (objs m) \<subseteq> {1..<fresh m}"
  shows "seeded s (sim0 s seeds m)"
  using assms by (simp add: seeded_def sim0_def)

text \<open>
  Claim C5. A generation leaves a state \<open>bred\<close> behind (lemma \<open>generation_bred\<close>: the
  first from the seeded start, every later one from a \<open>bred\<close> state). Breeding (lines 259
  to 273, every generation but the first) from such a state, with best \<open>b\<close>: the new
  population has length \<^verbatim>\<open>m_populationSize\<close>; its slot 0 is the pointer \<open>algo b\<close> itself,
  whose object is still live and as it was; every slot \<open>j \<ge> 1\<close> is a new object derived from
  successor \<open>j mod m_successorSize\<close>; every other member of the old population is
  destroyed; and the generation that starts with this breeding evaluates exactly this
  population and leaves a \<open>bred\<close> state again.
\<close>

theorem elitism:
  assumes "bred s st"
  shows "\<exists>b st'. best st = Some b \<and> breed s st = Inr st' \<and>
           length (population st') = m_populationSize (god s) \<and>
           distinct (population st') \<and>
           population st' ! 0 = algo b \<and>
           objs (mem st') (algo b) = objs (mem st) (algo b) \<and>
           algo b \<in> dom (objs (mem st')) \<and>
           (\<forall>j. 1 \<le> j \<and> j < m_populationSize (god s) \<longrightarrow>
              population st' ! j \<notin> dom (objs (mem st)) \<and>
              objs (mem st') (population st' ! j) =
                Some (gen s (population st' ! j)
                  (the (objs (mem st)
                     (algo (algoscores st ! (j mod m_successorSize (god s)))))))) \<and>
           (\<forall>p\<in>set (population st). p \<noteq> algo b \<longrightarrow> objs (mem st') p = None) \<and>
           (\<forall>n i st2. i \<noteq> 1 \<and> generation s n i st = Inr st2 \<longrightarrow>
              population st2 = population st' \<and> mem st2 = mem st' \<and> bred s st2)"
proof -
  let ?P = "m_populationSize (god s)" and ?k = "m_successorSize (god s)"
  let ?f = "fresh (mem st)"
  from assms obtain b where b: "best st = Some b" "b \<in> set (algoscores st)"
    by (auto simp: bred_def split: option.splits)
  have h: "length (population st) = ?P" "length (algoscores st) = ?k"
    "distinct (population st)" "set (population st) \<subseteq> dom (objs (mem st))"
    "\<forall>a\<in>set (algoscores st). algo a \<in> dom (objs (mem st))"
    "dom (objs (mem st)) \<subseteq> {1..<?f}"
    using assms by (auto simp: bred_def)
  note sz = bred_sizes [OF assms]
  from breed_result [OF b sz h]
  obtain st' where r: "breed s st = Inr st'"
    "population st' = algo b # map (\<lambda>j. ?f + j) [0..<?P - 1]"
    "\<forall>p. objs (mem st') p =
              (if p \<in> set (population st) \<and> p \<noteq> algo b then None
               else if ?f \<le> p \<and> p < ?f + (?P - 1)
               then Some (gen s p (the (objs (mem st)
                      (algo (algoscores st ! ((p - ?f + 1) mod ?k))))))
               else objs (mem st) p)"
    by blast
  have below: "p < ?f" if "p \<in> dom (objs (mem st))" for p
    using h(6) that by auto
  have b_live: "algo b \<in> dom (objs (mem st))" using b(2) h(5) by blast
  have len: "length (population st') = ?P" using r(2) sz(1) by simp
  have dist: "distinct (population st')"
    unfolding r(2) using below [OF b_live] by (auto simp: distinct_map inj_on_def)
  have elite: "objs (mem st') (algo b) = objs (mem st) (algo b)"
    using r(3) below [OF b_live] by simp
  have slots: "\<forall>j. 1 \<le> j \<and> j < ?P \<longrightarrow>
              population st' ! j \<notin> dom (objs (mem st)) \<and>
              objs (mem st') (population st' ! j) =
                Some (gen s (population st' ! j)
                  (the (objs (mem st) (algo (algoscores st ! (j mod ?k))))))"
  proof (intro allI impI)
    fix j assume j: "1 \<le> j \<and> j < ?P"
    then obtain j' where j': "j = Suc j'" "j' < ?P - 1" by (cases j) auto
    let ?p = "?f + j'"
    have pj: "population st' ! j = ?p" using r(2) j' by simp
    have notold: "?p \<notin> dom (objs (mem st))" using below [of ?p] by auto
    then have "?p \<notin> set (population st)" using h(4) by auto
    moreover have "?f \<le> ?p \<and> ?p < ?f + (?P - 1)" using j'(2) by simp
    ultimately have "objs (mem st') ?p = Some (gen s ?p (the (objs (mem st)
                      (algo (algoscores st ! ((?p - ?f + 1) mod ?k))))))"
      using r(3) by presburger
    moreover have "?p - ?f + 1 = j" using j' by simp
    ultimately show "population st' ! j \<notin> dom (objs (mem st)) \<and>
              objs (mem st') (population st' ! j) =
                Some (gen s (population st' ! j)
                  (the (objs (mem st) (algo (algoscores st ! (j mod ?k))))))"
      using pj notold by simp
  qed
  have dead: "\<forall>p\<in>set (population st). p \<noteq> algo b \<longrightarrow> objs (mem st') p = None"
    using r(3) by simp
  have later: "\<forall>n i st2. i \<noteq> 1 \<and> generation s n i st = Inr st2 \<longrightarrow>
              population st2 = population st' \<and> mem st2 = mem st' \<and> bred s st2"
  proof (intro allI impI)
    fix n i st2 assume g: "i \<noteq> 1 \<and> generation s n i st = Inr st2"
    then have "bred s st2" using generation_bred [of s n i st st2] assms by simp
    moreover from generation_steps [of s n i st st2] g r(1)
    have "population st2 = population st' \<and> mem st2 = mem st'" by auto
    ultimately show "population st2 = population st' \<and> mem st2 = mem st' \<and> bred s st2"
      by simp
  qed
  have "population st' ! 0 = algo b" using r(2) by simp
  moreover have "algo b \<in> dom (objs (mem st'))" using elite b_live by auto
  ultimately show ?thesis
    using b(1) r(1) len dist elite slots dead later
    by (intro exI [of _ b] exI [of _ st']) simp
qed

lemma bred_ex_bred:
  "bred (ex_params minScoreHeap patientComplete (\<lambda>i. [0]) (ex_god 3 2 1 2)) ex_bred"
  by (simp add: bred_def ex_bred_def ex_sim_def ex_params_def ex_god_def)

lemma generation_ex_bred:
  "map_sum id population
     (generation (ex_params minScoreHeap patientComplete (\<lambda>i. [0]) (ex_god 3 2 1 2)) 1 2 ex_bred)
   = Inr [3, 5, 6]"
  by (simp add: ex_defs ex_bred_def ex_sim_def gen_defs upt_small upt_small_Suc replicate_small Let_def)

theorem elitism_witness:
  "\<exists>st' st2. breed (ex_params minScoreHeap patientComplete (\<lambda>i. [0]) (ex_god 3 2 1 2)) ex_bred = Inr st' \<and>
         length (population st') = 3 \<and> population st' ! 0 = 3 \<and>
         objs (mem st') 3 = Some 3 \<and> objs (mem st') 2 = None \<and> objs (mem st') 4 = None \<and>
         generation (ex_params minScoreHeap patientComplete (\<lambda>i. [0]) (ex_god 3 2 1 2)) 1 2 ex_bred
           = Inr st2 \<and>
         population st2 = population st' \<and>
         bred (ex_params minScoreHeap patientComplete (\<lambda>i. [0]) (ex_god 3 2 1 2)) st2"
proof -
  let ?s = "ex_params minScoreHeap patientComplete (\<lambda>i. [0]) (ex_god 3 2 1 2)"
  let ?b = "\<lparr>algo = 3, ascore = \<lparr>success = False, score = 3\<rparr>\<rparr>"
  have c: "m_populationSize (god ?s) = 3" "population ex_bred = [2, 3, 4]"
    "best ex_bred = Some ?b"
    by (simp_all add: ex_bred_def ex_sim_def ex_params_def ex_god_def)
  have d: "objs (mem ex_bred) 3 = Some 3"
    by (simp add: ex_bred_def ex_sim_def)
  from generation_ex_bred obtain st2 where st2: "generation ?s 1 2 ex_bred = Inr st2"
    by (cases "generation ?s 1 2 ex_bred") auto
  from elitism [OF bred_ex_bred] obtain b st' where st': "best ex_bred = Some b"
    "breed ?s ex_bred = Inr st'"
    "length (population st') = m_populationSize (god ?s)"
    "population st' ! 0 = algo b"
    "objs (mem st') (algo b) = objs (mem ex_bred) (algo b)"
    "\<forall>p\<in>set (population ex_bred). p \<noteq> algo b \<longrightarrow> objs (mem st') p = None"
    "\<forall>n i st2. i \<noteq> 1 \<and> generation ?s n i ex_bred = Inr st2 \<longrightarrow>
              population st2 = population st' \<and> mem st2 = mem st' \<and> bred ?s st2"
    by blast
  have b: "b = ?b" using st'(1) c(3) by simp
  have "population st2 = population st' \<and> bred ?s st2"
    using st'(7) st2 by (metis numeral_eq_one_iff semiring_norm(85))
  with st' st2 show ?thesis
    unfolding b c using d by (intro exI [of _ st'] exI [of _ st2]) simp
qed


subsection \<open>The generational loop\<close>

lemma release_out:
  assumes "release s w st = Inr (w', st')"
  shows "w' = w \<and> out st' = out st"
proof -
  from assms obtain t where t:
    "for_each [0..<m_populationSize (god s)] (release_body (algo w)) st = Inr t"
    "w' = w" "st' = t"
    by (auto simp: release_def split: sum.splits)
  have "out t = out st"
    by (rule for_each_preserves [OF _ t(1)])
       (auto simp: release_body_def split: if_splits sum.splits)
  with t show ?thesis by simp
qed

lemma return_best_out: "return_best s st = Inr (w, st') \<Longrightarrow> out st' = out st"
  by (auto simp: return_best_def split: option.splits dest: release_out)

lemma return_winner_out: "return_winner s st = Inr (w, st') \<Longrightarrow> out st' = out st"
  by (auto simp: return_winner_def split: sum.splits dest: release_out)

lemma generations_returns:
  assumes "m_numCycles (god s) < 2 ^ 32 - 1"
  shows "\<exists>y. generations s n i st = Some y"
proof (induction "Suc (m_numCycles (god s)) - i" arbitrary: i st)
  case 0
  then have "\<not> i \<le> m_numCycles (god s)" by simp
  then show ?case by (subst generations.simps) simp
next
  case (Suc d)
  then have i: "i \<le> m_numCycles (god s)" by simp
  then have nowrap: "(i + 1) mod 2 ^ 32 = i + 1" using assms by simp
  have "d = Suc (m_numCycles (god s)) - (i + 1)" using Suc.hyps(2) by simp
  from Suc.hyps(1) [OF this] have IH: "\<exists>y. generations s n (i + 1) st' = Some y" for st' .
  show ?case
    by (subst generations.simps) (use i nowrap IH in \<open>auto split: sum.splits\<close>)
qed

lemma generations_trace:
  assumes "m_numCycles (god s) < 2 ^ 32 - 1"
    and "generations s n i st = Some (Inr (w, st'))"
  shows "\<exists>tail. out st' = out st @ tail \<and>
           (i \<le> Suc (m_numCycles (god s)) \<longrightarrow> i + length tail \<le> Suc (m_numCycles (god s))) \<and>
           (complete_C s = patientComplete \<longrightarrow> i \<le> Suc (m_numCycles (god s)) \<longrightarrow>
              i + length tail = Suc (m_numCycles (god s))) \<and>
           (complete_C s = greedyComplete \<longrightarrow>
              (\<forall>l\<in>set (butlast tail). \<not> r_success l) \<and>
              (i + length tail < Suc (m_numCycles (god s)) \<longrightarrow>
                 tail \<noteq> [] \<and> r_success (last tail)))"
  using assms(2)
proof (induction "Suc (m_numCycles (god s)) - i" arbitrary: i st)
  case 0
  then have "\<not> i \<le> m_numCycles (god s)" by simp
  with "0.prems" generations.simps [of s n i st] have "return_winner s st = Inr (w, st')"
    by simp
  then have "out st' = out st" by (rule return_winner_out)
  with 0 show ?case by (intro exI [of _ "[]"]) simp
next
  case (Suc d)
  then have i: "i \<le> m_numCycles (god s)" by simp
  then have nowrap: "(i + 1) mod 2 ^ 32 = i + 1" using assms(1) by simp
  have "(case generation s n i st of
           Inl e \<Rightarrow> Some (Inl e)
         | Inr st1 \<Rightarrow>
             if complete_C s (algoscores st1) i then Some (return_best s st1)
             else generations s n ((i + 1) mod 2 ^ 32) st1) = Some (Inr (w, st'))"
    using Suc.prems i generations.simps [of s n i st] by simp
  then have unf: "(case generation s n i st of
           Inl e \<Rightarrow> Some (Inl e)
         | Inr st1 \<Rightarrow>
             if complete_C s (algoscores st1) i then Some (return_best s st1)
             else generations s n (i + 1) st1) = Some (Inr (w, st'))"
    by (simp only: nowrap)
  then obtain st1 where st1: "generation s n i st = Inr st1"
    "(if complete_C s (algoscores st1) i then Some (return_best s st1)
      else generations s n (i + 1) st1) = Some (Inr (w, st'))"
    by (cases "generation s n i st") auto
  from generation_report [OF st1(1)] obtain line b where line:
    "out st1 = out st @ [line]" "max_element algoScoreSort (algoscores st1) = Inr b"
    "r_success line = success (ascore b)"
    by blast
  have greedy: "r_success line = greedyComplete (algoscores st1) i"
    using line(2,3) max_element_success greedyComplete_iff by simp
  show ?case
  proof (cases "complete_C s (algoscores st1) i")
    case True
    with st1(2) have "return_best s st1 = Inr (w, st')" by simp
    then have "out st' = out st @ [line]" using line(1) return_best_out by metis
    moreover have "complete_C s \<noteq> patientComplete"
      using True by (auto simp: patientComplete_def)
    ultimately show ?thesis
      using i True greedy by (intro exI [of _ "[line]"]) auto
  next
    case False
    with st1(2) have rec: "generations s n (i + 1) st1 = Some (Inr (w, st'))" by simp
    have "d = Suc (m_numCycles (god s)) - (i + 1)" using Suc.hyps(2) by simp
    from Suc.hyps(1) [OF this rec] obtain tail where tail:
      "out st' = out st1 @ tail"
      "i + 1 \<le> Suc (m_numCycles (god s)) \<longrightarrow> i + 1 + length tail \<le> Suc (m_numCycles (god s))"
      "complete_C s = patientComplete \<longrightarrow> i + 1 \<le> Suc (m_numCycles (god s)) \<longrightarrow>
              i + 1 + length tail = Suc (m_numCycles (god s))"
      "complete_C s = greedyComplete \<longrightarrow>
              (\<forall>l\<in>set (butlast tail). \<not> r_success l) \<and>
              (i + 1 + length tail < Suc (m_numCycles (god s)) \<longrightarrow>
                 tail \<noteq> [] \<and> r_success (last tail))"
      by blast
    have "out st' = out st @ (line # tail)" using tail(1) line(1) by simp
    moreover have "\<not> r_success line" if "complete_C s = greedyComplete"
      using False greedy that by simp
    ultimately show ?thesis
      using i tail(2,3,4) by (intro exI [of _ "line # tail"]) auto
  qed
qed

lemma generations_out_prefix:
  assumes "generations s n i st = Some y"
  shows "\<forall>w st'. y = Inr (w, st') \<longrightarrow> (\<exists>tail. out st' = out st @ tail)"
proof (rule generations.raw_induct
    [where P = "\<lambda>s n i st y. \<forall>w st'. y = Inr (w, st') \<longrightarrow> (\<exists>tail. out st' = out st @ tail)",
     OF _ assms], goal_cases)
  case (1 gens s n i st y)
  show ?case
  proof (intro allI impI)
    fix w st' assume y: "y = Inr (w, st')"
    show "\<exists>tail. out st' = out st @ tail"
    proof (cases "i \<le> m_numCycles (god s)")
      case False
      with 1(2) y have "return_winner s st = Inr (w, st')" by simp
      then show ?thesis using return_winner_out by fastforce
    next
      case True
      with 1(2) y obtain st1 where st1: "generation s n i st = Inr st1"
        "(if complete_C s (algoscores st1) i then Some (return_best s st1)
          else gens s n ((i + 1) mod 2 ^ 32) st1) = Some (Inr (w, st'))"
        by (cases "generation s n i st") auto
      from generation_report [OF st1(1)] obtain line where line: "out st1 = out st @ [line]"
        by blast
      show ?thesis
      proof (cases "complete_C s (algoscores st1) i")
        case True
        with st1(2) have "return_best s st1 = Inr (w, st')" by simp
        then show ?thesis using line return_best_out by fastforce
      next
        case False
        with st1(2) have "gens s n ((i + 1) mod 2 ^ 32) st1 = Some (Inr (w, st'))" by simp
        from 1(1) [OF this] obtain tail where "out st' = out st1 @ tail" by blast
        then show ?thesis using line by simp
      qed
    qed
  qed
qed

lemma generation_zero_deltas:
  assumes "generation s n i st = Inr st'"
  shows "\<exists>line. out st' = out st @ [line] \<and> r_generation line = i \<and>
           (prevAvg st = Some 0 \<longrightarrow> r_change_avg line = None) \<and>
           (prevBest st = 0 \<longrightarrow> r_change_best line = None)"
  using generation_report [OF assms] by (auto simp: fdiv_def odiv_def split: option.splits)

lemma generations_first_line:
  assumes "generations s n i st = Some (Inr (w, st'))" "i \<le> m_numCycles (god s)"
  shows "\<exists>line tail. out st' = out st @ line # tail \<and> r_generation line = i \<and>
           (prevAvg st = Some 0 \<longrightarrow> r_change_avg line = None) \<and>
           (prevBest st = 0 \<longrightarrow> r_change_best line = None)"
proof -
  have unf: "(case generation s n i st of
           Inl e \<Rightarrow> Some (Inl e)
         | Inr st1 \<Rightarrow>
             if complete_C s (algoscores st1) i then Some (return_best s st1)
             else generations s n ((i + 1) mod 2 ^ 32) st1) = Some (Inr (w, st'))"
    using assms generations.simps [of s n i st] by simp
  then obtain st1 where st1: "generation s n i st = Inr st1"
    "(if complete_C s (algoscores st1) i then Some (return_best s st1)
      else generations s n ((i + 1) mod 2 ^ 32) st1) = Some (Inr (w, st'))"
    by (cases "generation s n i st") auto
  from generation_zero_deltas [OF st1(1)] obtain line where line:
    "out st1 = out st @ [line]" "r_generation line = i"
    "prevAvg st = Some 0 \<longrightarrow> r_change_avg line = None"
    "prevBest st = 0 \<longrightarrow> r_change_best line = None"
    by blast
  have "\<exists>tail. out st' = out st1 @ tail"
  proof (cases "complete_C s (algoscores st1) i")
    case True
    with st1(2) have "return_best s st1 = Inr (w, st')" by simp
    then show ?thesis using return_best_out by fastforce
  next
    case False
    with st1(2) have "generations s n ((i + 1) mod 2 ^ 32) st1 = Some (Inr (w, st'))" by simp
    from generations_out_prefix [OF this] show ?thesis by blast
  qed
  then obtain tail where "out st' = out st @ line # tail" using line(1) by auto
  then show ?thesis using line(2,3,4) by blast
qed

lemma simulate_trace:
  assumes "m_numCycles (god s) < 2 ^ 32 - 1" "simulate s seeds m = Some (Inr (w, st))"
  shows "length (out st) \<le> m_numCycles (god s) \<and>
         (complete_C s = patientComplete \<longrightarrow> length (out st) = m_numCycles (god s)) \<and>
         (complete_C s = greedyComplete \<longrightarrow>
            (\<forall>l\<in>set (butlast (out st)). \<not> r_success l) \<and>
            (length (out st) < m_numCycles (god s) \<longrightarrow>
               out st \<noteq> [] \<and> r_success (last (out st))))"
proof -
  from assms(2) obtain n where
    run: "generations s n 1 (sim0 s seeds m) = Some (Inr (w, st))"
    by (auto simp: simulate_def split: sum.splits)
  from generations_trace [OF assms(1) run] obtain tail where tail:
    "out st = out (sim0 s seeds m) @ tail"
    "1 \<le> Suc (m_numCycles (god s)) \<longrightarrow> 1 + length tail \<le> Suc (m_numCycles (god s))"
    "complete_C s = patientComplete \<longrightarrow> 1 \<le> Suc (m_numCycles (god s)) \<longrightarrow>
              1 + length tail = Suc (m_numCycles (god s))"
    "complete_C s = greedyComplete \<longrightarrow>
              (\<forall>l\<in>set (butlast tail). \<not> r_success l) \<and>
              (1 + length tail < Suc (m_numCycles (god s)) \<longrightarrow>
                 tail \<noteq> [] \<and> r_success (last tail))"
    by blast
  have "out st = tail" using tail(1) by (simp add: sim0_def)
  with tail(2,3,4) show ?thesis by simp
qed

lemma simulate_returns:
  assumes "m_numCycles (god s) < 2 ^ 32 - 1"
  shows "simulate s seeds m \<noteq> None"
  using generations_returns [OF assms]
  by (auto simp: simulate_def split: sum.splits)

lemma generation_success_line:
  assumes "generation s n i st0 = Inr st1"
  shows "\<exists>line. out st1 = out st0 @ [line] \<and> r_generation line = i \<and>
           (r_success line \<longleftrightarrow> greedyComplete (algoscores st1) i)"
proof -
  from generation_report [OF assms] obtain line b where
    "out st1 = out st0 @ [line]" "r_generation line = i"
    "max_element algoScoreSort (algoscores st1) = Inr b" "r_success line = success (ascore b)"
    by blast
  then show ?thesis
    using max_element_success greedyComplete_iff by auto
qed

text \<open>
  Claim C8. \<open>greedyComplete\<close> is true exactly when some successor is a success, and
  \<open>patientComplete\<close> is never true. Every generation appends one line to the output, with
  the generation's number and the best's success flag, and that flag is what
  \<open>greedyComplete\<close> answers on the generation's successors. With \<^verbatim>\<open>m_numCycles\<close> below
  \<open>2 ^ 32 - 1\<close> (so that the unsigned counter does not wrap) \<open>simulate\<close> returns; when it
  returns a winner it has run at most \<^verbatim>\<open>m_numCycles\<close> generations; under
  \<open>patientComplete\<close> it has run exactly \<^verbatim>\<open>m_numCycles\<close>; under \<open>greedyComplete\<close> no
  generation before the last had a success among its successors, and a run that stopped
  before \<^verbatim>\<open>m_numCycles\<close> stopped at a generation that had one.
\<close>

theorem termination_policies:
  "(greedyComplete successors stepNum \<longleftrightarrow> (\<exists>a\<in>set successors. success (ascore a))) \<and>
   \<not> patientComplete successors stepNum \<and>
   (generation s n i st0 = Inr st1 \<longrightarrow>
      (\<exists>line. out st1 = out st0 @ [line] \<and> r_generation line = i \<and>
              (r_success line \<longleftrightarrow> greedyComplete (algoscores st1) i))) \<and>
   (m_numCycles (god s) < 2 ^ 32 - 1 \<longrightarrow>
      simulate s seeds m \<noteq> None \<and>
      (\<forall>w st. simulate s seeds m = Some (Inr (w, st)) \<longrightarrow>
         length (out st) \<le> m_numCycles (god s) \<and>
         (complete_C s = patientComplete \<longrightarrow> length (out st) = m_numCycles (god s)) \<and>
         (complete_C s = greedyComplete \<longrightarrow>
            (\<forall>l\<in>set (butlast (out st)). \<not> r_success l) \<and>
            (length (out st) < m_numCycles (god s) \<longrightarrow>
               out st \<noteq> [] \<and> r_success (last (out st))))))"
  using greedyComplete_iff [of successors stepNum] generation_success_line [of s n i st0 st1]
    simulate_returns [of s seeds m] simulate_trace [of s seeds m]
  by (simp add: patientComplete_def)

lemma run_greedy:
  "map_option (map_sum id (\<lambda>ws. map r_success (out (snd ws))))
     (simulate (ex_params maxScoreHeap greedyComplete (\<lambda>i. [0]) (ex_god 3 2 1 3)) [1] ex_store)
   = Some (Inr [False, True])"
  by (simp add: ex_defs generations.simps gen_defs upt_small upt_small_Suc replicate_small Let_def)

lemma run_patient:
  "map_option (map_sum id (\<lambda>ws. map r_success (out (snd ws))))
     (simulate (ex_params maxScoreHeap patientComplete (\<lambda>i. [0]) (ex_god 3 2 1 3)) [1] ex_store)
   = Some (Inr [False, True, True])"
  by (simp add: ex_defs generations.simps gen_defs upt_small upt_small_Suc replicate_small Let_def)

lemma generation_ex_first:
  "map_sum id (\<lambda>t. map r_generation (out t))
     (generation (ex_params maxScoreHeap greedyComplete (\<lambda>i. [0]) (ex_god 3 2 1 3)) 1 1
        (sim0 (ex_params maxScoreHeap greedyComplete (\<lambda>i. [0]) (ex_god 3 2 1 3)) [1] ex_store))
   = Inr [1]"
  by (simp add: ex_defs gen_defs upt_small upt_small_Suc replicate_small Let_def)

theorem termination_policies_witness:
  "greedyComplete [\<lparr>algo = 1, ascore = \<lparr>success = False, score = 1\<rparr>\<rparr>,
                   \<lparr>algo = 2, ascore = \<lparr>success = True, score = 0\<rparr>\<rparr>] 1 \<and>
   (\<exists>st1 line.
      generation (ex_params maxScoreHeap greedyComplete (\<lambda>i. [0]) (ex_god 3 2 1 3)) 1 1
        (sim0 (ex_params maxScoreHeap greedyComplete (\<lambda>i. [0]) (ex_god 3 2 1 3)) [1] ex_store)
        = Inr st1 \<and>
      out st1 = [line] \<and> r_generation line = 1) \<and>
   (\<exists>w st. simulate (ex_params maxScoreHeap greedyComplete (\<lambda>i. [0]) (ex_god 3 2 1 3)) [1] ex_store
             = Some (Inr (w, st)) \<and>
           map r_success (out st) = [False, True] \<and> r_success (last (out st))) \<and>
   (\<exists>w st. simulate (ex_params maxScoreHeap patientComplete (\<lambda>i. [0]) (ex_god 3 2 1 3)) [1] ex_store
             = Some (Inr (w, st)) \<and>
           length (out st) = 3)"
proof -
  let ?g = "ex_params maxScoreHeap greedyComplete (\<lambda>i. [0]) (ex_god 3 2 1 3)"
  let ?p = "ex_params maxScoreHeap patientComplete (\<lambda>i. [0]) (ex_god 3 2 1 3)"
  let ?as = "[\<lparr>algo = 1, ascore = \<lparr>success = False, score = 1\<rparr>\<rparr>,
              \<lparr>algo = 2, ascore = \<lparr>success = True, score = 0\<rparr>\<rparr>]"
  have cyc: "m_numCycles (god ?g) < 2 ^ 32 - 1" "m_numCycles (god ?p) < 2 ^ 32 - 1"
    "m_numCycles (god ?g) = 3" "m_numCycles (god ?p) = 3"
    "complete_C ?g = greedyComplete" "complete_C ?p = patientComplete"
    by (simp_all add: ex_params_def ex_god_def)
  from generation_ex_first obtain st1 where st1:
    "generation ?g 1 1 (sim0 ?g [1] ex_store) = Inr st1"
    by (cases "generation ?g 1 1 (sim0 ?g [1] ex_store)") auto
  from run_greedy obtain wg sg where g: "simulate ?g [1] ex_store = Some (Inr (wg, sg))"
    "map r_success (out sg) = [False, True]"
    by (cases "simulate ?g [1] ex_store") (auto simp: map_sum_def split: sum.splits)
  from run_patient obtain wp sp where p: "simulate ?p [1] ex_store = Some (Inr (wp, sp))"
    by (cases "simulate ?p [1] ex_store") (auto simp: map_sum_def split: sum.splits)
  note tg = termination_policies [of ?as 1 ?g 1 1 "sim0 ?g [1] ex_store" st1 "[1]" ex_store]
  note tp = termination_policies [of ?as 1 ?p 1 1 sp sp "[1]" ex_store]
  have A: "greedyComplete ?as 1" using tg by simp
  have "\<exists>line. out st1 = out (sim0 ?g [1] ex_store) @ [line] \<and> r_generation line = 1"
    using tg st1 by auto
  then have B: "\<exists>st1 line. generation ?g 1 1 (sim0 ?g [1] ex_store) = Inr st1 \<and>
      out st1 = [line] \<and> r_generation line = 1"
    using st1 by (auto simp: sim0_def)
  have "length (out sg) = 2" using g(2) by (metis length_map length_Cons list.size(3) numeral_2_eq_2)
  then have "r_success (last (out sg))"
    using tg cyc g(1) by simp
  with g have G: "\<exists>w st. simulate ?g [1] ex_store = Some (Inr (w, st)) \<and>
           map r_success (out st) = [False, True] \<and> r_success (last (out st))"
    by (intro exI [of _ wg] exI [of _ sg]) simp
  have "length (out sp) = 3"
    using tp cyc p by simp
  with p have P: "\<exists>w st. simulate ?p [1] ex_store = Some (Inr (w, st)) \<and> length (out st) = 3"
    by (intro exI [of _ wp] exI [of _ sp]) simp
  from A B G P show ?thesis by (intro conjI)
qed

subsection \<open>The figures of the first generation\<close>

text \<open>
  Claim C4 as stated, that the two changes from the previous generation are not the
  result of a division by zero in generation 1, fails: in the run of one generation from
  one seed both figures of the line of generation 1 are quotients by zero.
\<close>

theorem first_generation_deltas_counterexample:
  "map_option
     (map_sum id (\<lambda>ws. map (\<lambda>l. (r_generation l, r_change_avg l, r_change_best l)) (out (snd ws))))
     (simulate (ex_params maxScoreHeap patientComplete (\<lambda>i. [0]) (ex_god 3 2 1 1)) [1] ex_store)
   = Some (Inr [(1, None, None)])"
  by (simp add: ex_defs generations.simps gen_defs upt_small upt_small_Suc replicate_small Let_def)

text \<open>
  Claim C4, amended. Lines 309 to 311 divide in every generation, with no test of the
  divisor. In generation 1 the divisors \<^verbatim>\<open>prevAvg\<close> and \<^verbatim>\<open>prevBest\<close> are the \<open>0.0\<close> of line
  238, so in every run that returns a winner after at least one generation the first line
  of the output is that of generation 1 and its two changes from the previous generation
  are quotients by zero.
\<close>

theorem first_generation_deltas:
  "simulate s seeds m = Some (Inr (w, st)) \<and> 0 < m_numCycles (god s) \<longrightarrow>
     (\<exists>line rest. out st = line # rest \<and> r_generation line = 1 \<and>
        r_change_avg line = None \<and> r_change_best line = None)"
proof
  assume a: "simulate s seeds m = Some (Inr (w, st)) \<and> 0 < m_numCycles (god s)"
  then obtain n where run: "generations s n 1 (sim0 s seeds m) = Some (Inr (w, st))"
    by (auto simp: simulate_def split: sum.splits)
  have "1 \<le> m_numCycles (god s)" using a by simp
  from generations_first_line [OF run this] obtain line tail where
    "out st = out (sim0 s seeds m) @ line # tail" "r_generation line = 1"
    "prevAvg (sim0 s seeds m) = Some 0 \<longrightarrow> r_change_avg line = None"
    "prevBest (sim0 s seeds m) = 0 \<longrightarrow> r_change_best line = None"
    by blast
  then show "\<exists>line rest. out st = line # rest \<and> r_generation line = 1 \<and>
        r_change_avg line = None \<and> r_change_best line = None"
    by (simp add: sim0_def)
qed

theorem first_generation_deltas_witness:
  "\<exists>w st line rest.
     simulate (ex_params maxScoreHeap patientComplete (\<lambda>i. [0]) (ex_god 3 2 1 3)) [1] ex_store
       = Some (Inr (w, st)) \<and>
     out st = line # rest \<and> r_generation line = 1 \<and>
     r_change_avg line = None \<and> r_change_best line = None"
proof -
  let ?p = "ex_params maxScoreHeap patientComplete (\<lambda>i. [0]) (ex_god 3 2 1 3)"
  from run_patient obtain w st where p: "simulate ?p [1] ex_store = Some (Inr (w, st))"
    by (cases "simulate ?p [1] ex_store") (auto simp: map_sum_def split: sum.splits)
  have "0 < m_numCycles (god ?p)" by (simp add: ex_params_def ex_god_def)
  with p first_generation_deltas [of ?p "[1]" ex_store w st]
  obtain line rest where "out st = line # rest \<and> r_generation line = 1 \<and>
        r_change_avg line = None \<and> r_change_best line = None"
    by auto
  with p show ?thesis by (intro exI [of _ w] exI [of _ st] exI [of _ line] exI [of _ rest]) simp
qed


subsection \<open>The returned individual\<close>

text \<open>
  Claim C1, at the minimizing instantiation. One generation (\<open>patientComplete\<close>, one
  worker) from one seed, with a population of 3 and 2 successors: the individuals at
  addresses 2, 3 and 4 are evaluated, with scores 2, 3 and 4 and no success.
  \<open>minScoreHeap\<close> keeps those at 2 and 3, and \<open>simulate\<close> returns the one at 3. It is not
  maximal under \<open>algoScoreSort\<close> among the evaluated pairs (the one at 4 outranks it), and
  under the heap's own order the one at 2 is better. The same run with \<open>maxScoreHeap\<close>
  returns the one at 4.
\<close>

theorem min_heap_returns_inner_element:
  "map_option (map_sum id fst)
     (simulate (ex_params minScoreHeap patientComplete (\<lambda>i. [0]) (ex_god 3 2 1 1)) [1] ex_store)
     = Some (Inr \<lparr>algo = 3, ascore = \<lparr>success = False, score = 3\<rparr>\<rparr>) \<and>
   map_sum id population
     (init_population (ex_params minScoreHeap patientComplete (\<lambda>i. [0]) (ex_god 3 2 1 1))
        (sim0 (ex_params minScoreHeap patientComplete (\<lambda>i. [0]) (ex_god 3 2 1 1)) [1] ex_store))
     = Inr [2, 3, 4] \<and>
   algoScoreSort \<lparr>algo = 3, ascore = \<lparr>success = False, score = 3\<rparr>\<rparr>
     \<lparr>algo = 4, ascore = process (ex_params minScoreHeap patientComplete (\<lambda>i. [0]) (ex_god 3 2 1 1)) 4\<rparr> \<and>
   minScoreHeap
     \<lparr>algo = 2, ascore = process (ex_params minScoreHeap patientComplete (\<lambda>i. [0]) (ex_god 3 2 1 1)) 2\<rparr>
     \<lparr>algo = 3, ascore = \<lparr>success = False, score = 3\<rparr>\<rparr> = - 1 \<and>
   map_option (map_sum id fst)
     (simulate (ex_params maxScoreHeap patientComplete (\<lambda>i. [0]) (ex_god 3 2 1 1)) [1] ex_store)
     = Some (Inr \<lparr>algo = 4, ascore = \<lparr>success = False, score = 4\<rparr>\<rparr>)"
  by (simp add: ex_defs generations.simps gen_defs upt_small upt_small_Suc replicate_small Let_def)


subsection \<open>The number of workers\<close>

text \<open>
  Claim C3. With a population of 3, a minimum workload of 5 per thread and at most 4
  threads, all positive, lines 225 to 229 give 0 workers, not at least 1. No individual is
  then evaluated, and the first \<^verbatim>\<open>Pop\<close> of line 296 finds the structure empty.
\<close>

theorem numThreads_below_workload:
  "numThreads \<lparr>m_populationSize = 3, m_successorSize = 2, m_minThreadWorkloadSize = 5,
               m_maxNumThreads = 4, m_numCycles = 1\<rparr> = Inr 0 \<and>
   simulate
     ((ex_params maxScoreHeap patientComplete (\<lambda>i. []) (ex_god 3 2 4 1))
        \<lparr>god := \<lparr>m_populationSize = 3, m_successorSize = 2, m_minThreadWorkloadSize = 5,
                 m_maxNumThreads = 4, m_numCycles = 1\<rparr>\<rparr>)
     [1] ex_store = Some (Inl PopEmpty)"
  by (simp add: ex_defs generations.simps gen_defs upt_small upt_small_Suc replicate_small Let_def)

end
